theory Spec2Isabelle
  imports Main "HOL-Library.Word"
begin

unbundle bit_operations_syntax

section \<open>Bit planner\<close>

text \<open>
  A byte is an 8-bit value (an element of a Python \<open>bytes\<close> object, an element of a
  JavaScript \<open>Uint8Array\<close>). A bit is a small integer 0 or 1, as both programs keep it.
\<close>

type_synonym byte = "8 word"

subsection \<open>Writer: \<open>bytes_to_lsb_bits\<close> (src/encoder.py)\<close>

text \<open>
  The inner loop \<open>for i in range(7, -1, -1): bits.append((b >> i) & 1)\<close> and the outer
  loop \<open>for b in data\<close>, both appending to the accumulator \<open>bits\<close>.
\<close>

definition append_byte_bits :: "nat list \<Rightarrow> byte \<Rightarrow> nat list" where
  "append_byte_bits bits b =
     foldl (\<lambda>acc i. acc @ [unat (drop_bit i b AND 1)]) bits [7, 6, 5, 4, 3, 2, 1, 0]"

definition bytes_to_lsb_bits :: "byte list \<Rightarrow> nat list" where
  "bytes_to_lsb_bits data = foldl append_byte_bits [] data"

subsection \<open>Reader: \<open>lsbBitsToBytes\<close> (the script served by app.py)\<close>

text \<open>
  Reading a JavaScript array past its end gives \<open>undefined\<close>, which \<open>|\<close> takes as 0.
\<close>

definition js_bit_at :: "nat list \<Rightarrow> nat \<Rightarrow> nat" where
  "js_bit_at bits k = (if k < length bits then bits ! k else 0)"

text \<open>
  The inner loop over \<open>j\<close>, with its guard \<open>if (i + j >= bits.length) break\<close>. The
  accumulator \<open>byte\<close> is a 32-bit integer, as \<open><<\<close> and \<open>|\<close> produce.
\<close>

fun pack_bits :: "nat list \<Rightarrow> nat \<Rightarrow> nat list \<Rightarrow> 32 word \<Rightarrow> 32 word" where
  "pack_bits bits i [] byte = byte"
| "pack_bits bits i (j # js) byte =
     (if i + j \<ge> length bits then byte
      else pack_bits bits i js (push_bit 1 byte OR of_nat (js_bit_at bits (i * 8 + j))))"

text \<open>
  The outer loop fills \<open>data\<close>, of length \<open>floor(bits.length / 8)\<close>; storing into the
  \<open>Uint8Array\<close> keeps the low eight bits.
\<close>

definition lsbBitsToBytes :: "nat list \<Rightarrow> byte list" where
  "lsbBitsToBytes bits =
     map (\<lambda>i. ucast (pack_bits bits i [0..<8] 0)) [0..<length bits div 8]"


text \<open>
  The eight bits of one byte, most significant first: what one pass of the writer's inner
  loop appends.
\<close>

definition byte_bits :: "byte \<Rightarrow> nat list" where
  "byte_bits b = map (\<lambda>i. unat (drop_bit i b AND 1)) [7, 6, 5, 4, 3, 2, 1, 0]"

section \<open>Carrier images and errors\<close>

text \<open>
  A carrier after \<open>Image.open(...).convert("RGB")\<close>: its size and a pixel store addressed
  as \<open>pixels[x, y]\<close>, each pixel three 8-bit channels. The loops below only address
  \<open>x < width\<close> and \<open>y < height\<close>. Files are a map from paths to decoded images; PNG is
  lossless, so saving and loading keep every channel.
\<close>

type_synonym rgb = "byte \<times> byte \<times> byte"

type_synonym pixmap = "nat \<times> nat \<Rightarrow> rgb"

record image =
  width :: nat
  height :: nat
  pixel_at :: pixmap

type_synonym files = "string \<rightharpoonup> image"

datatype error =
    CarrierNotFound   \<comment> \<open>\<open>FileNotFoundError\<close>, encoder.py line 79\<close>
  | DataTooLarge      \<comment> \<open>\<open>ValueError\<close>, encoder.py line 90\<close>
  | KeyRejected       \<comment> \<open>raised by the \<open>AESGCM\<close> constructor\<close>
  | EncryptFailed     \<comment> \<open>raised by \<open>AESGCM.encrypt\<close>\<close>
  | StructError       \<comment> \<open>\<open>struct.error\<close> of \<open>struct.pack(">I", n)\<close>\<close>
  | MappingEmpty      \<comment> \<open>\<open>RuntimeError\<close>, app.py line 77\<close>
  | IntValueError     \<comment> \<open>\<open>ValueError\<close> of \<open>int(payload_len)\<close>, app.py line 93\<close>
  | ImageLoadFailed   \<comment> \<open>the rejected image promise, app.py line 384\<close>
  | DataTooLong       \<comment> \<open>the \<open>Error\<close> thrown at app.py line 399\<close>
  | RangeError        \<comment> \<open>\<open>new DataView\<close> past the end of the buffer\<close>
  | DecryptFailed     \<comment> \<open>the rejection of \<open>crypto.subtle.decrypt\<close>\<close>

fun channel :: "nat \<Rightarrow> rgb \<Rightarrow> byte" where
  "channel c (r, g, b) = (if c = 0 then r else if c = 1 then g else b)"

section \<open>LSB embedder: \<open>embed_data_in_png\<close> (src/encoder.py)\<close>

text \<open>
  \<open>(c & 0xFE) | bits[bit_idx]\<close>. The bits come from \<open>bytes_to_lsb_bits\<close>, so they are 0
  or 1 and the result is again an 8-bit channel.
\<close>

definition set_lsb :: "byte \<Rightarrow> nat \<Rightarrow> byte" where
  "set_lsb c v = (c AND 0xFE) OR of_nat v"

text \<open>
  The inner loop \<open>for x in range(w)\<close> of row \<open>y\<close>, on the state \<open>(pixels, bit_idx)\<close>.
  Each \<open>break\<close> returns the state as it stands.
\<close>

fun embed_row :: "nat list \<Rightarrow> nat \<Rightarrow> nat list \<Rightarrow> pixmap \<times> nat \<Rightarrow> pixmap \<times> nat" where
  "embed_row bits y [] (px, bit_idx) = (px, bit_idx)"
| "embed_row bits y (x # xs) (px, bit_idx) =
     (if bit_idx \<ge> length bits then (px, bit_idx)
      else case px (x, y) of (r, g, b) \<Rightarrow>
        let r' = set_lsb r (bits ! bit_idx) in
        if bit_idx + 1 \<ge> length bits then (px((x, y) := (r', g, b)), bit_idx + 1)
        else let g' = set_lsb g (bits ! (bit_idx + 1)) in
          if bit_idx + 2 \<ge> length bits then (px((x, y) := (r', g', b)), bit_idx + 2)
          else let b' = set_lsb b (bits ! (bit_idx + 2)) in
            embed_row bits y xs (px((x, y) := (r', g', b')), bit_idx + 3))"

text \<open>The outer loop \<open>for y in range(h)\<close>, with its \<open>break\<close> after a finished row.\<close>

fun embed_rows :: "nat list \<Rightarrow> nat \<Rightarrow> nat list \<Rightarrow> pixmap \<times> nat \<Rightarrow> pixmap \<times> nat" where
  "embed_rows bits w [] st = st"
| "embed_rows bits w (y # ys) st =
     (case embed_row bits y [0..<w] st of
        (px, bit_idx) \<Rightarrow>
          if bit_idx \<ge> length bits then (px, bit_idx)
          else embed_rows bits w ys (px, bit_idx))"

text \<open>Lines 96 to 125: both loops, from \<open>bit_idx = 0\<close>, on the loaded image.\<close>

definition embed_bits :: "image \<Rightarrow> nat list \<Rightarrow> image" where
  "embed_bits img bits =
     img\<lparr>pixel_at := fst (embed_rows bits (width img) [0..<height img] (pixel_at img, 0))\<rparr>"

text \<open>
  The whole function on the file store: the carrier must exist, the capacity check comes
  before the loops, and only a successful run saves \<open>output_png\<close>.
\<close>

definition embed_data_in_png ::
  "files \<Rightarrow> string \<Rightarrow> string \<Rightarrow> byte list \<Rightarrow> (error + unit) \<times> files" where
  "embed_data_in_png fs input_png output_png data =
     (case fs input_png of
        None \<Rightarrow> (Inl CarrierNotFound, fs)
      | Some img \<Rightarrow>
          let w = width img; h = height img;
              bits = bytes_to_lsb_bits data;
              bit_len = length bits;
              max_bits = w * h * 3
          in if bit_len > max_bits then (Inl DataTooLarge, fs)
             else (Inr (), fs(output_png \<mapsto> embed_bits img bits)))"

section \<open>LSB extractor: \<open>extractDataFromPng\<close> (the script served by app.py)\<close>

text \<open>
  What \<open>getImageData\<close> returns for an opaque image: a flat array of
  \<open>width * height * 4\<close> bytes, pixel \<open>(x, y)\<close> at offset \<open>(y * width + x) * 4\<close> as
  red, green, blue, alpha (255).
\<close>

definition getImageData :: "image \<Rightarrow> byte list" where
  "getImageData img =
     map (\<lambda>i. if i mod 4 = 3 then 255
              else channel (i mod 4) (pixel_at img ((i div 4) mod width img, (i div 4) div width img)))
       [0..<width img * height img * 4]"

text \<open>\<open>pixels[off] & 1\<close>; a read past the end is \<open>undefined\<close>, and \<open>undefined & 1\<close> is 0.\<close>

definition js_lsb :: "byte list \<Rightarrow> nat \<Rightarrow> nat" where
  "js_lsb pixels off = (if off < length pixels then unat (pixels ! off AND 1) else 0)"

text \<open>
  The inner loop \<open>for (x = 0; x < w && bitIdx < needBits; x++)\<close> of row \<open>y\<close>, on the
  state \<open>(bits, bitIdx)\<close>.
\<close>

fun extract_row ::
  "byte list \<Rightarrow> nat \<Rightarrow> int \<Rightarrow> nat \<Rightarrow> nat list \<Rightarrow> nat list \<times> nat \<Rightarrow> nat list \<times> nat" where
  "extract_row pixels w needBits y [] (bits, bitIdx) = (bits, bitIdx)"
| "extract_row pixels w needBits y (x # xs) (bits, bitIdx) =
     (if \<not> int bitIdx < needBits then (bits, bitIdx)
      else let off = (y * w + x) * 4;
               r = js_lsb pixels off;
               g = js_lsb pixels (off + 1);
               b = js_lsb pixels (off + 2)
           in if int (bitIdx + 1) \<ge> needBits then (bits @ [r], bitIdx + 1)
              else if int (bitIdx + 2) \<ge> needBits then (bits @ [r, g], bitIdx + 2)
              else if int (bitIdx + 3) \<ge> needBits then (bits @ [r, g, b], bitIdx + 3)
              else extract_row pixels w needBits y xs (bits @ [r, g, b], bitIdx + 3))"

text \<open>The outer loop \<open>for (y = 0; y < h && bitIdx < needBits; y++)\<close>.\<close>

fun extract_rows ::
  "byte list \<Rightarrow> nat \<Rightarrow> int \<Rightarrow> nat list \<Rightarrow> nat list \<times> nat \<Rightarrow> nat list \<times> nat" where
  "extract_rows pixels w needBits [] st = st"
| "extract_rows pixels w needBits (y # ys) (bits, bitIdx) =
     (if \<not> int bitIdx < needBits then (bits, bitIdx)
      else extract_rows pixels w needBits ys
             (extract_row pixels w needBits y [0..<w] (bits, bitIdx)))"

text \<open>Lines 402 to 418: both loops, from an empty \<open>bits\<close>.\<close>

definition extract_bits :: "image \<Rightarrow> int \<Rightarrow> nat list" where
  "extract_bits img needBits =
     fst (extract_rows (getImageData img) (width img) needBits [0..<height img] ([], 0))"

text \<open>
  The whole function. \<open>None\<close> is a data URL that does not load. \<open>dataLen\<close> is the integer
  \<open>parseInt\<close> gave; a \<open>NaN\<close> is not covered.
\<close>

definition extractDataFromPng :: "image option \<Rightarrow> int \<Rightarrow> error + byte list" where
  "extractDataFromPng imgB64 dataLen =
     (case imgB64 of
        None \<Rightarrow> Inl ImageLoadFailed
      | Some img \<Rightarrow>
          let needBits = dataLen * 8;
              maxBits = int (width img * height img * 3)
          in if needBits > maxBits then Inl DataTooLong
             else Inr (lsbBitsToBytes (extract_bits img needBits)))"

text \<open>
  The least-significant bit of the \<open>k\<close>-th channel in raster-then-channel order: rows top
  to bottom, columns left to right, then red, green, blue. This is the order the
  specification names; the loops above are compared with it.
\<close>

definition traversal_lsb :: "image \<Rightarrow> nat \<Rightarrow> nat" where
  "traversal_lsb img k =
     unat (channel (k mod 3) (pixel_at img ((k div 3) mod width img, (k div 3) div width img)) AND 1)"


text \<open>
  What the embedding loops are shown to compute: channel number \<open>k\<close> in traversal order
  receives bit \<open>k\<close> while bits remain, and a pixel whose first channel has number \<open>k\<close>
  is rewritten channel by channel.
\<close>

definition put_bit :: "nat list \<Rightarrow> nat \<Rightarrow> byte \<Rightarrow> byte" where
  "put_bit bits k c = (if k < length bits then set_lsb c (bits ! k) else c)"

definition stego_pixel :: "nat list \<Rightarrow> nat \<Rightarrow> rgb \<Rightarrow> rgb" where
  "stego_pixel bits k p =
     (case p of (r, g, b) \<Rightarrow> (put_bit bits k r, put_bit bits (k + 1) g, put_bit bits (k + 2) b))"

text \<open>Two small carriers for concrete runs: 2 by 2 pixels (12 bits) and 7 by 7 (147 bits).\<close>

definition carrier2 :: image where
  "carrier2 = \<lparr>width = 2, height = 2, pixel_at = (\<lambda>_. (0x10, 0x21, 0x30))\<rparr>"

definition carrier7 :: image where
  "carrier7 = \<lparr>width = 7, height = 7, pixel_at = (\<lambda>_. (0x10, 0x21, 0x30))\<rparr>"

section \<open>Envelope: \<open>encrypt_and_embed\<close> (src/encoder.py) and \<open>extractAndDecryptPng\<close> (app.py)\<close>






text \<open>\<open>ctLenView.getUint32(0, false)\<close> on the view at byte offset \<open>off\<close>.\<close>

definition getUint32_be :: "byte list \<Rightarrow> nat \<Rightarrow> nat" where
  "getUint32_be buf off =
     unat (buf ! off) * 2 ^ 24 + unat (buf ! (off + 1)) * 2 ^ 16
       + unat (buf ! (off + 2)) * 2 ^ 8 + unat (buf ! (off + 3))"

text \<open>
  Lines 434 to 437 of \<open>extractAndDecryptPng\<close>, the reader's parse of the envelope:
  \<open>slice\<close> clamps to the array, \<open>new DataView(payload.buffer, 12, 4)\<close> throws a
  \<open>RangeError\<close> when the buffer has fewer than 16 bytes.
\<close>

definition unframe :: "byte list \<Rightarrow> error + (byte list \<times> nat \<times> byte list)" where
  "unframe payload =
     (let nonce = take 12 payload
      in if length payload < 12 + 4 then Inl RangeError
         else let ctLen = getUint32_be payload 12;
                  ct = take ctLen (drop 16 payload)
              in Inr (nonce, ctLen, ct))"

definition extractAndDecryptPng ::
  "(byte list \<Rightarrow> byte list \<Rightarrow> byte list \<Rightarrow> error + string) \<Rightarrow>
     byte list \<Rightarrow> image option \<Rightarrow> int \<Rightarrow> error + string" where
  "extractAndDecryptPng aesGcmDecrypt key imgB64 totalPayloadLen =
     (case extractDataFromPng imgB64 totalPayloadLen of
        Inl e \<Rightarrow> Inl e
      | Inr payload \<Rightarrow>
          (case unframe payload of
             Inl e \<Rightarrow> Inl e
           | Inr (nonce, ctLen, ct) \<Rightarrow> aesGcmDecrypt nonce ct key))"


section \<open>Mapping registry: \<open>read_article_mapping\<close> (app.py)\<close>

text \<open>
  Strings are lists of code points below 256. \<open>str.strip()\<close> drops the characters for
  which \<open>str.isspace()\<close> holds; below 256 these are the codes 9 to 13, 28 to 32, 133 and
  160, the tab among them.
\<close>

definition py_isspace :: "char \<Rightarrow> bool" where
  "py_isspace c =
     (let n = (of_char c :: nat)
      in (9 \<le> n \<and> n \<le> 13) \<or> (28 \<le> n \<and> n \<le> 32) \<or> n = 133 \<or> n = 160)"

definition py_strip :: "string \<Rightarrow> string" where
  "py_strip s = rev (dropWhile py_isspace (rev (dropWhile py_isspace s)))"

definition TAB :: char where
  "TAB = CHR 0x09"

text \<open>\<open>s.split(sep)\<close> for a one-character separator: never empty, empty fields kept.\<close>

fun py_split :: "char \<Rightarrow> string \<Rightarrow> string list" where
  "py_split sep [] = ['''']"
| "py_split sep (c # cs) =
     (if c = sep then [] # py_split sep cs
      else (case py_split sep cs of
              f # fs \<Rightarrow> (c # f) # fs
            | [] \<Rightarrow> [c # []]))"

text \<open>\<open>p.rfind(c)\<close>: the last index of \<open>c\<close>, or -1.\<close>

definition rfind :: "string \<Rightarrow> char \<Rightarrow> int" where
  "rfind p c =
     (case filter (\<lambda>i. p ! i = c) (rev [0..<length p]) of
        [] \<Rightarrow> - 1
      | i # _ \<Rightarrow> int i)"

text \<open>
  \<open>os.path.splitext\<close> as \<open>posixpath\<close> has it: split at the last dot after the last
  slash, unless that dot is preceded only by dots in the file name.
\<close>

definition splitext :: "string \<Rightarrow> string \<times> string" where
  "splitext p =
     (let sepIndex = rfind p CHR ''/'';
          dotIndex = rfind p CHR ''.''
      in if dotIndex > sepIndex
            \<and> list_ex (\<lambda>k. p ! k \<noteq> CHR ''.'') [nat (sepIndex + 1)..<nat dotIndex]
         then (take (nat dotIndex) p, drop (nat dotIndex) p)
         else (p, []))"

text \<open>
  \<open>int(s)\<close> in base 10. The whitespace it skips at both ends is narrower than that of
  \<open>str.strip()\<close>: the codes 9 to 13 and 32, and the non-ASCII spaces 133 and 160, but not
  28 to 31. Then an optional sign and decimal digits with single underscores allowed
  between digits. \<open>lim\<close> is the interpreter's \<open>sys.get_int_max_str_digits()\<close> (4300
  unless configured, 0 for no limit): more digits than that are refused when there are
  more than 640. \<open>None\<close> is the \<open>ValueError\<close>.
\<close>

definition int_isspace :: "char \<Rightarrow> bool" where
  "int_isspace c =
     (let n = (of_char c :: nat)
      in (9 \<le> n \<and> n \<le> 13) \<or> n = 32 \<or> n = 133 \<or> n = 160)"

definition is_digit :: "char \<Rightarrow> bool" where
  "is_digit c = (let n = (of_char c :: nat) in 48 \<le> n \<and> n \<le> 57)"

definition digit_val :: "char \<Rightarrow> nat" where
  "digit_val c = (of_char c :: nat) - 48"

fun parse_digits :: "nat \<Rightarrow> string \<Rightarrow> nat option" where
  "parse_digits acc [] = Some acc"
| "parse_digits acc [c] = (if is_digit c then Some (acc * 10 + digit_val c) else None)"
| "parse_digits acc (c # d # ds) =
     (if is_digit c then parse_digits (acc * 10 + digit_val c) (d # ds)
      else if c = CHR ''_'' \<and> is_digit d then parse_digits (acc * 10 + digit_val d) ds
      else None)"

definition py_int :: "nat \<Rightarrow> string \<Rightarrow> int option" where
  "py_int lim s =
     (let t = rev (dropWhile int_isspace (rev (dropWhile int_isspace s)));
          neg = (case t of c # _ \<Rightarrow> c = CHR ''-'' | [] \<Rightarrow> False);
          u = (case t of c # r \<Rightarrow> if c = CHR ''-'' \<or> c = CHR ''+'' then r else t | [] \<Rightarrow> [])
      in case u of
           [] \<Rightarrow> None
         | d # ds \<Rightarrow>
             if is_digit d
             then (case parse_digits (digit_val d) ds of
                     None \<Rightarrow> None
                   | Some n \<Rightarrow>
                       let digits = length (filter is_digit u)
                       in if digits > 640 \<and> lim > 0 \<and> digits > lim then None
                          else Some (if neg then - int n else int n))
             else None)"

text \<open>One value of the dictionary the function returns.\<close>

record entry =
  entry_id :: string
  img_path :: string
  aes_key_b64 :: string
  payload_len :: int

text \<open>The \<open>parts\<close> of a line: \<open>line.strip().split("\t")\<close>.\<close>

definition parts_of :: "string \<Rightarrow> string list" where
  "parts_of line = py_split TAB (py_strip line)"

text \<open>
  The loop \<open>for line in lines[1:]\<close> on the dictionary \<open>mp\<close>. An \<open>int()\<close> that fails
  leaves the function through the exception, without a dictionary. \<open>lim\<close> is the digit
  limit of the interpreter the server runs on.
\<close>

fun read_lines ::
  "nat \<Rightarrow> string list \<Rightarrow> (string \<rightharpoonup> entry) \<Rightarrow> error + (string \<rightharpoonup> entry)" where
  "read_lines lim [] mp = Inr mp"
| "read_lines lim (line # rest) mp =
     (if py_strip line = [] then read_lines lim rest mp
      else case parts_of line of
             [article_id, img, key_b64, len_field] \<Rightarrow>
               let article_key = fst (splitext article_id)
               in (case py_int lim len_field of
                     None \<Rightarrow> Inl IntValueError
                   | Some n \<Rightarrow>
                       read_lines lim rest
                         (mp(article_key \<mapsto>
                            \<lparr>entry_id = article_key, img_path = img,
                             aes_key_b64 = key_b64, payload_len = n\<rparr>)))
           | _ \<Rightarrow> read_lines lim rest mp)"

text \<open>The function on \<open>lines = f.readlines()\<close>.\<close>

definition read_article_mapping :: "nat \<Rightarrow> string list \<Rightarrow> error + (string \<rightharpoonup> entry)" where
  "read_article_mapping lim lines =
     (if lines = [] then Inl MappingEmpty else read_lines lim (tl lines) Map.empty)"

text \<open>A line of tab-separated fields, for writing down concrete registry files.\<close>

fun tsv :: "string list \<Rightarrow> string" where
  "tsv [] = []"
| "tsv [f] = f"
| "tsv (f # g # fs) = f @ TAB # tsv (g # fs)"

text \<open>
  For a line with four parts: the key under which it is stored, and the entry stored
  (\<open>None\<close> when \<open>int()\<close> rejects the fourth part).
\<close>

definition line_key :: "string \<Rightarrow> string" where
  "line_key line = fst (splitext (parts_of line ! 0))"

definition line_entry :: "nat \<Rightarrow> string \<Rightarrow> entry option" where
  "line_entry lim line =
     map_option (\<lambda>n. \<lparr>entry_id = line_key line, img_path = parts_of line ! 1,
                     aes_key_b64 = parts_of line ! 2, payload_len = n\<rparr>)
       (py_int lim (parts_of line ! 3))"

text \<open>The header line the encoder writes (encoder.py line 177).\<close>

definition header_line :: string where
  "header_line =
     tsv [''ARTICLE_NAME'', ''IMAGE_PATH'', ''AES_KEY_B64'', ''PAYLOAD_LEN''] @ [CHR 0x0A]"

section \<open>Properties of the bit planner\<close>

lemma append_byte_bits_eq: "append_byte_bits bits b = bits @ byte_bits b"
  by (simp add: append_byte_bits_def byte_bits_def)

lemma foldl_append_byte_bits:
  "foldl append_byte_bits acc data = acc @ concat (map byte_bits data)"
  by (induction data arbitrary: acc) (simp_all add: append_byte_bits_eq)

lemma bytes_to_lsb_bits_concat: "bytes_to_lsb_bits data = concat (map byte_bits data)"
  by (simp add: bytes_to_lsb_bits_def foldl_append_byte_bits)

lemma length_byte_bits: "length (byte_bits b) = 8"
  by (simp add: byte_bits_def)

lemma length_bytes_to_lsb_bits: "length (bytes_to_lsb_bits data) = 8 * length data"
  by (induction data) (simp_all add: bytes_to_lsb_bits_concat length_byte_bits)

lemma lsb_nat: "unat (drop_bit i (b::byte) AND 1) = of_bool (bit b i)"
  by (simp add: and_one_eq bit_iff_odd_drop_bit mod_2_eq_odd)

lemma byte_bits_nth: "j < 8 \<Longrightarrow> byte_bits b ! j = of_bool (bit b (7 - j))"
proof -
  assume "j < 8"
  then consider "j = 0" | "j = 1" | "j = 2" | "j = 3" | "j = 4" | "j = 5" | "j = 6" | "j = 7"
    by linarith
  then show ?thesis
    by cases (simp_all add: byte_bits_def lsb_nat del: of_bool_eq_iff)
qed

lemma concat_byte_bits_nth:
  "k < length data \<Longrightarrow> j < 8 \<Longrightarrow>
     concat (map byte_bits data) ! (k * 8 + j) = byte_bits (data ! k) ! j"
proof (induction data arbitrary: k)
  case Nil
  then show ?case by simp
next
  case (Cons b data)
  show ?case
  proof (cases k)
    case 0
    with Cons.prems show ?thesis by (simp add: nth_append length_byte_bits)
  next
    case (Suc k')
    with Cons.prems have "concat (map byte_bits data) ! (k' * 8 + j) = byte_bits (data ! k') ! j"
      by (intro Cons.IH) simp_all
    with Suc show ?thesis by (simp add: nth_append length_byte_bits)
  qed
qed

lemma bytes_to_lsb_bits_nth:
  "k < length data \<Longrightarrow> j < 8 \<Longrightarrow>
     bytes_to_lsb_bits data ! (k * 8 + j) = of_bool (bit (data ! k) (7 - j))"
  by (simp add: bytes_to_lsb_bits_concat concat_byte_bits_nth byte_bits_nth)

lemma bytes_to_lsb_bits_01: "set (bytes_to_lsb_bits data) \<subseteq> {0, 1}"
  by (auto simp add: bytes_to_lsb_bits_concat byte_bits_def lsb_nat)

text \<open>One step of the reader's accumulator, bit by bit.\<close>

lemma step_bit:
  "bit (push_bit 1 (w::32 word) OR of_bool c) n =
     (n < 32 \<and> (if n = 0 then c else bit w (n - 1)))"
  unfolding bit_or_iff bit_push_bit_iff bit_of_bool_iff
  by (cases n) (auto dest: bit_imp_le_length)

lemma pack_word:
  fixes b :: byte
  shows "(ucast (push_bit 1 (push_bit 1 (push_bit 1 (push_bit 1 (push_bit 1 (push_bit 1
            (push_bit 1 (push_bit 1 (0::32 word)
     OR of_bool (bit b 7))
     OR of_bool (bit b 6))
     OR of_bool (bit b 5))
     OR of_bool (bit b 4))
     OR of_bool (bit b 3))
     OR of_bool (bit b 2))
     OR of_bool (bit b 1))
     OR of_bool (bit b 0)) :: byte) = b"
    (is "?packed = b")
proof (rule bit_word_eqI)
  fix n assume "n < LENGTH(8)"
  then consider "n = 0" | "n = 1" | "n = 2" | "n = 3" | "n = 4" | "n = 5" | "n = 6" | "n = 7"
    by simp linarith
  then show "bit ?packed n = bit b n"
    by cases (simp_all only: bit_ucast_iff step_bit, simp_all)
qed

lemma upt8: "[0..<8] = [0, 1, 2, 3, 4, 5, 6, 7]"
  by (simp add: upt_rec)

text \<open>
  The guard \<open>i + j >= bits.length\<close> never fires: \<open>i\<close> stays below \<open>floor(bits.length / 8)\<close>,
  so all eight reads of a byte are inside the array.
\<close>

lemma pack_bits_full:
  assumes "i < length bits div 8"
  shows "pack_bits bits i [0..<8] 0 =
    push_bit 1 (push_bit 1 (push_bit 1 (push_bit 1 (push_bit 1 (push_bit 1
      (push_bit 1 (push_bit 1 (0::32 word)
     OR of_nat (bits ! (i * 8)))
     OR of_nat (bits ! (i * 8 + 1)))
     OR of_nat (bits ! (i * 8 + 2)))
     OR of_nat (bits ! (i * 8 + 3)))
     OR of_nat (bits ! (i * 8 + 4)))
     OR of_nat (bits ! (i * 8 + 5)))
     OR of_nat (bits ! (i * 8 + 6)))
     OR of_nat (bits ! (i * 8 + 7))"
proof -
  from assms have a: "i * 8 + 7 < length bits" by linarith
  then have b: "\<not> length bits \<le> i + j" if "j < 8" for j using that by linarith
  have c: "i * 8 + j < length bits" if "j < 8" for j using that a by linarith
  show ?thesis
    unfolding upt8 pack_bits.simps js_bit_at_def
    using b[of 0] b[of 1] b[of 2] b[of 3] b[of 4] b[of 5] b[of 6] b[of 7]
          c[of 0] c[of 1] c[of 2] c[of 3] c[of 4] c[of 5] c[of 6] c[of 7]
    by (simp del: push_bit_of_0)
qed

lemma pack_bits_roundtrip:
  assumes "i < length data"
  shows "ucast (pack_bits (bytes_to_lsb_bits data) i [0..<8] 0) = data ! i"
proof -
  let ?bits = "bytes_to_lsb_bits data" and ?b = "data ! i"
  have "i < length ?bits div 8"
    using assms by (simp add: length_bytes_to_lsb_bits)
  note p = pack_bits_full[OF this]
  have n: "?bits ! (i * 8 + j) = of_bool (bit ?b (7 - j))" if "j < 8" for j
    using that assms by (rule bytes_to_lsb_bits_nth[rotated])
  have n0: "?bits ! (i * 8) = of_bool (bit ?b 7)" using n[of 0] by simp
  have n1: "?bits ! (i * 8 + 1) = of_bool (bit ?b 6)" using n[of 1] by simp
  have n2: "?bits ! (i * 8 + 2) = of_bool (bit ?b 5)" using n[of 2] by simp
  have n3: "?bits ! (i * 8 + 3) = of_bool (bit ?b 4)" using n[of 3] by simp
  have n4: "?bits ! (i * 8 + 4) = of_bool (bit ?b 3)" using n[of 4] by simp
  have n5: "?bits ! (i * 8 + 5) = of_bool (bit ?b 2)" using n[of 5] by simp
  have n6: "?bits ! (i * 8 + 6) = of_bool (bit ?b 1)" using n[of 6] by simp
  have n7: "?bits ! (i * 8 + 7) = of_bool (bit ?b 0)" using n[of 7] by simp
  show ?thesis
    unfolding p n0 n1 n2 n3 n4 n5 n6 n7 of_nat_of_bool by (rule pack_word)
qed

lemma lsbBitsToBytes_roundtrip: "lsbBitsToBytes (bytes_to_lsb_bits data) = data"
  by (rule nth_equalityI)
     (simp_all add: lsbBitsToBytes_def length_bytes_to_lsb_bits pack_bits_roundtrip)

text \<open>
  Claim C1. For every byte sequence \<open>b\<close>, the writer's \<open>bytes_to_lsb_bits\<close> yields
  \<open>8 * len(b)\<close> bits, bit \<open>j\<close> of byte \<open>k\<close> (counted from the most significant one) at
  position \<open>8 * k + j\<close>, bytes in input order; the reader's \<open>lsbBitsToBytes\<close> inverts it,
  so reading back gives \<open>b\<close>, and planning the bytes read back gives the same bits.
\<close>

theorem bit_planner_agreement:
  "length (bytes_to_lsb_bits b) = 8 * length b
   \<and> (\<forall>k<length b. \<forall>j<8. bytes_to_lsb_bits b ! (k * 8 + j) = of_bool (bit (b ! k) (7 - j)))
   \<and> lsbBitsToBytes (bytes_to_lsb_bits b) = b
   \<and> bytes_to_lsb_bits (lsbBitsToBytes (bytes_to_lsb_bits b)) = bytes_to_lsb_bits b"
  by (simp add: length_bytes_to_lsb_bits bytes_to_lsb_bits_nth lsbBitsToBytes_roundtrip)

theorem bit_planner_agreement_witness:
  "(1::nat) < length [0x01, 0xA5 :: byte] \<and> (2::nat) < 8
   \<and> bytes_to_lsb_bits [0x01, 0xA5] ! (1 * 8 + 2) = 1
   \<and> lsbBitsToBytes (bytes_to_lsb_bits [0x01, 0xA5]) = [0x01, 0xA5]"
proof -
  note t = bit_planner_agreement[of "[0x01, 0xA5]"]
  have k: "(1::nat) < length [0x01, 0xA5 :: byte]" and j: "(2::nat) < 8" by simp_all
  have "bytes_to_lsb_bits [0x01, 0xA5] ! (1 * 8 + 2)
      = of_bool (bit ([0x01, 0xA5 :: byte] ! 1) (7 - 2))"
    using t[THEN conjunct2, THEN conjunct1, rule_format, OF k j] .
  moreover have "bit (0xA5 :: byte) 5" by simp
  ultimately have n: "bytes_to_lsb_bits [0x01, 0xA5] ! (1 * 8 + 2) = 1" by simp
  have r: "lsbBitsToBytes (bytes_to_lsb_bits [0x01, 0xA5]) = [0x01, 0xA5]"
    using t[THEN conjunct2, THEN conjunct2, THEN conjunct1] .
  show ?thesis using k j n r by (intro conjI)
qed

section \<open>Properties of the embedding loops\<close>

lemma stego_pixel_id: "length bits \<le> k \<Longrightarrow> stego_pixel bits k p = p"
  by (cases p) (simp add: stego_pixel_def put_bit_def)

lemma embed_row_spec:
  "embed_row bits y [x0..<w] (px, i) = (px', i') \<Longrightarrow>
     (\<forall>x y'. px' (x, y') =
           (if y' = y \<and> x0 \<le> x \<and> x < w then stego_pixel bits (i + 3 * (x - x0)) (px (x, y))
            else px (x, y')))
     \<and> i' \<le> i + 3 * (w - x0)
     \<and> (i' < length bits \<longrightarrow> i' = i + 3 * (w - x0))"
proof (induction "w - x0" arbitrary: x0 px i)
  case 0
  then show ?case by auto
next
  case (Suc n)
  then have lt: "x0 < w" and n: "n = w - Suc x0" by simp_all
  have up: "[x0..<w] = x0 # [Suc x0..<w]" using lt by (simp add: upt_rec)
  obtain r g b where p: "px (x0, y) = (r, g, b)" by (cases "px (x0, y)")
  let ?r = "set_lsb r (bits ! i)" and ?g = "set_lsb g (bits ! (i + 1))"
    and ?b = "set_lsb b (bits ! (i + 2))"
  from Suc.prems have e: "embed_row bits y (x0 # [Suc x0..<w]) (px, i) = (px', i')"
    using up by simp
  then consider (a) "length bits \<le> i" "px' = px" "i' = i"
    | (b) "i < length bits" "length bits \<le> i + 1" "px' = px((x0, y) := (?r, g, b))" "i' = i + 1"
    | (c) "i + 1 < length bits" "length bits \<le> i + 2" "px' = px((x0, y) := (?r, ?g, b))"
          "i' = i + 2"
    | (d) "i + 2 < length bits"
          "embed_row bits y [Suc x0..<w] (px((x0, y) := (?r, ?g, ?b)), i + 3) = (px', i')"
    using p by (auto simp: Let_def split: if_splits)
  then show ?case
  proof cases
    case a
    then show ?thesis by (auto simp: stego_pixel_id)
  next
    case b
    have "stego_pixel bits i (r, g, b) = (?r, g, b)"
      using b by (simp add: stego_pixel_def put_bit_def)
    with b lt p show ?thesis by (auto simp: stego_pixel_id)
  next
    case c
    have "stego_pixel bits i (r, g, b) = (?r, ?g, b)"
      using c by (simp add: stego_pixel_def put_bit_def)
    with c lt p show ?thesis by (auto simp: stego_pixel_id)
  next
    case d
    have s: "stego_pixel bits i (r, g, b) = (?r, ?g, ?b)"
      using d by (simp add: stego_pixel_def put_bit_def)
    note ih = Suc.hyps(1)[OF n d(2)]
    have m: "i + 3 + 3 * (x - Suc x0) = i + 3 * (x - x0)" if "Suc x0 \<le> x" for x
      using that by simp
    have w: "i + 3 + 3 * (w - Suc x0) = i + 3 * (w - x0)" using lt by simp
    from ih have i1: "i' \<le> i + 3 * (w - x0)"
      and i2: "i' < length bits \<longrightarrow> i' = i + 3 * (w - x0)"
      using w by simp_all
    have "px' (x, y') =
           (if y' = y \<and> x0 \<le> x \<and> x < w then stego_pixel bits (i + 3 * (x - x0)) (px (x, y))
            else px (x, y'))" for x y'
    proof (cases "y' = y \<and> x = x0")
      case True
      with ih lt s p show ?thesis by simp
    next
      case False
      from ih have px': "px' (x, y') =
         (if y' = y \<and> Suc x0 \<le> x \<and> x < w
          then stego_pixel bits (i + 3 + 3 * (x - Suc x0))
                 ((px((x0, y) := (?r, ?g, ?b))) (x, y))
          else (px((x0, y) := (?r, ?g, ?b))) (x, y'))"
        by blast
      show ?thesis
      proof (cases "y' = y \<and> Suc x0 \<le> x \<and> x < w")
        case True
        then have "x \<noteq> x0" by simp
        with True px' have "px' (x, y') = stego_pixel bits (i + 3 + 3 * (x - Suc x0)) (px (x, y))"
          by simp
        also have "i + 3 + 3 * (x - Suc x0) = i + 3 * (x - x0)" using True by (intro m) simp
        finally show ?thesis using True by simp
      next
        case F: False
        with px' False have "px' (x, y') = px (x, y')" by auto
        moreover from F False have "\<not> (y' = y \<and> x0 \<le> x \<and> x < w)" by auto
        ultimately show ?thesis by auto
      qed
    qed
    with i1 i2 show ?thesis by blast
  qed
qed


lemma embed_rows_spec:
  "embed_rows bits w [y0..<h] (px, i) = (px', i') \<Longrightarrow>
     px' (x, y) =
       (if y0 \<le> y \<and> y < h \<and> x < w
        then stego_pixel bits (i + 3 * ((y - y0) * w + x)) (px (x, y))
        else px (x, y))"
proof (induction "h - y0" arbitrary: y0 px i)
  case 0
  then show ?case by auto
next
  case (Suc n)
  then have lt: "y0 < h" and n: "n = h - Suc y0" by simp_all
  have up: "[y0..<h] = y0 # [Suc y0..<h]" using lt by (simp add: upt_rec)
  obtain px1 i1 where row: "embed_row bits y0 [0..<w] (px, i) = (px1, i1)"
    by (cases "embed_row bits y0 [0..<w] (px, i)")
  note rs = embed_row_spec[OF row]
  have px1: "px1 (x, y) = (if y = y0 \<and> x < w then stego_pixel bits (i + 3 * x) (px (x, y0))
                           else px (x, y))"
    using rs by simp
  from rs have i1: "i1 \<le> i + 3 * w" and i1': "i1 < length bits \<Longrightarrow> i1 = i + 3 * w"
    by simp_all
  show ?case
  proof (cases "y0 < y \<and> y < h \<and> x < w")
    case later: True
    then obtain d where d: "y - y0 = Suc d" "y - Suc y0 = d"
      by (metis Suc_diff_Suc diff_Suc_eq_diff_pred diff_Suc_1)
    have idx: "i + 3 * w + 3 * ((y - Suc y0) * w + x) = i + 3 * ((y - y0) * w + x)"
      unfolding d by (simp add: algebra_simps)
    from later px1 have same: "px1 (x, y) = px (x, y)" by simp
    show ?thesis
    proof (cases "length bits \<le> i1")
      case True
      with Suc.prems row up have "px' = px1" by simp
      moreover have "length bits \<le> i + 3 * ((y - y0) * w + x)"
        using True i1 unfolding d by (simp add: algebra_simps)
      ultimately show ?thesis using same later by (simp add: stego_pixel_id)
    next
      case False
      then have eq: "i1 = i + 3 * w" using i1' by simp
      from Suc.prems row up False eq
      have "embed_rows bits w [Suc y0..<h] (px1, i + 3 * w) = (px', i')" by simp
      from Suc.hyps(1)[OF n this] later
      have "px' (x, y) = stego_pixel bits (i + 3 * w + 3 * ((y - Suc y0) * w + x)) (px1 (x, y))"
        by simp
      then show ?thesis using later same unfolding idx by simp
    qed
  next
    case nl: False
    have "px' (x, y) = px1 (x, y)"
    proof (cases "length bits \<le> i1")
      case True
      with Suc.prems row up show ?thesis by simp
    next
      case False
      then have eq: "i1 = i + 3 * w" using i1' by simp
      from Suc.prems row up False eq
      have "embed_rows bits w [Suc y0..<h] (px1, i + 3 * w) = (px', i')" by simp
      from Suc.hyps(1)[OF n this] nl show ?thesis by auto
    qed
    with px1 nl lt show ?thesis by auto
  qed
qed

lemma embed_bits_pixel:
  "pixel_at (embed_bits img bits) (x, y) =
     (if x < width img \<and> y < height img
      then stego_pixel bits (3 * (y * width img + x)) (pixel_at img (x, y))
      else pixel_at img (x, y))"
proof -
  obtain px' i' where
    e: "embed_rows bits (width img) [0..<height img] (pixel_at img, 0) = (px', i')"
    by (cases "embed_rows bits (width img) [0..<height img] (pixel_at img, 0)")
  from embed_rows_spec[OF e, of x y] e show ?thesis
    by (auto simp: embed_bits_def)
qed

lemma embed_bits_size [simp]:
  "width (embed_bits img bits) = width img" "height (embed_bits img bits) = height img"
  by (simp_all add: embed_bits_def)

section \<open>Properties of the extraction loops\<close>

lemma upt_split: "i \<le> j \<Longrightarrow> j \<le> k \<Longrightarrow> [i..<k] = [i..<j] @ [j..<k]"
  using upt_add_eq_append[of i j "k - j"] by simp

lemma extract_row_spec:
  assumes G: "\<And>x c. x < w \<Longrightarrow> c < 3 \<Longrightarrow> js_lsb pixels ((y * w + x) * 4 + c) = g (B + 3 * x + c)"
    and le: "x0 \<le> w"
  shows "extract_row pixels w nb y [x0..<w] (bits, B + 3 * x0) =
           (bits @ map g [B + 3 * x0..<(if int (B + 3 * x0) < nb then min (nat nb) (B + 3 * w)
                                         else B + 3 * x0)],
            (if int (B + 3 * x0) < nb then min (nat nb) (B + 3 * w) else B + 3 * x0))"
  using le
proof (induction "w - x0" arbitrary: x0 bits)
  case 0
  then have "x0 = w" by simp
  then show ?case by simp
next
  case (Suc n)
  then have lt: "x0 < w" and n: "n = w - Suc x0" and le': "Suc x0 \<le> w" by simp_all
  have up: "[x0..<w] = x0 # [Suc x0..<w]" using lt by (simp add: upt_rec)
  let ?i = "B + 3 * x0"
  have r: "js_lsb pixels ((y * w + x0) * 4) = g ?i" using G[OF lt, of 0] by simp
  have g: "js_lsb pixels ((y * w + x0) * 4 + 1) = g (?i + 1)" using G[OF lt, of 1] by simp
  have b: "js_lsb pixels ((y * w + x0) * 4 + 2) = g (?i + 2)" using G[OF lt, of 2] by simp
  have big: "?i + 3 \<le> B + 3 * w" using lt by simp
  show ?case
  proof (cases "int ?i < nb")
    case False
    then show ?thesis unfolding up by simp
  next
    case True
    consider (a) "nat nb = ?i + 1" | (b) "nat nb = ?i + 2" | (c) "nat nb = ?i + 3"
      | (d) "?i + 3 < nat nb"
      using True by linarith
    then show ?thesis
    proof cases
      case a
      then have "min (nat nb) (B + 3 * w) = ?i + 1" using big by simp
      moreover have "nb \<le> int (?i + 1)" using a by linarith
      ultimately show ?thesis unfolding up using True r by (simp add: Let_def)
    next
      case b
      then have "min (nat nb) (B + 3 * w) = ?i + 2" using big by simp
      moreover have "nb \<le> int (?i + 2)" "\<not> nb \<le> int (?i + 1)" using b by linarith+
      moreover have "[?i..<?i + 2] = [?i, ?i + 1]" by (simp add: upt_rec)
      ultimately show ?thesis unfolding up using True r g
        by (simp add: Let_def del: upt_Suc)
    next
      case c
      then have "min (nat nb) (B + 3 * w) = ?i + 3" using big by simp
      moreover have "nb \<le> int (?i + 3)" "\<not> nb \<le> int (?i + 1)" "\<not> nb \<le> int (?i + 2)"
        using c by linarith+
      moreover have "[?i..<?i + 3] = [?i, ?i + 1, ?i + 2]" by (simp add: upt_rec)
      ultimately show ?thesis unfolding up using True r g b
        by (simp add: Let_def del: upt_Suc)
    next
      case d
      let ?e = "min (nat nb) (B + 3 * w)"
      have nn: "\<not> nb \<le> int (?i + 1)" "\<not> nb \<le> int (?i + 2)" "\<not> nb \<le> int (?i + 3)"
        using d by linarith+
      have s: "B + 3 * Suc x0 = ?i + 3" by simp
      have t: "int (?i + 3) < nb" using d by linarith
      have ih: "extract_row pixels w nb y [Suc x0..<w] (bits @ [g ?i, g (?i + 1), g (?i + 2)], ?i + 3)
                = ((bits @ [g ?i, g (?i + 1), g (?i + 2)]) @ map g [?i + 3..<?e], ?e)"
        using Suc.hyps(1)[OF n le', of "bits @ [g ?i, g (?i + 1), g (?i + 2)]"] t
        unfolding s by simp
      have ge: "?i + 3 \<le> ?e" using d big by simp
      have split: "[?i..<?e] = [?i, ?i + 1, ?i + 2] @ [?i + 3..<?e]"
      proof -
        have "[?i..<?e] = [?i..<?i + 3] @ [?i + 3..<?e]"
          using ge by (intro upt_split) simp_all
        moreover have "[?i..<?i + 3] = [?i, ?i + 1, ?i + 2]" by (simp add: upt_rec)
        ultimately show ?thesis by simp
      qed
      have "extract_row pixels w nb y (x0 # [Suc x0..<w]) (bits, ?i)
            = extract_row pixels w nb y [Suc x0..<w] (bits @ [g ?i, g (?i + 1), g (?i + 2)], ?i + 3)"
        using True nn r g b by (simp add: Let_def)
      then show ?thesis unfolding up ih using True split by simp
    qed
  qed
qed


lemma min_reached: "int k < nb \<Longrightarrow> min (nat nb) k = k"
  by linarith

lemma divmod4: "c < 4 \<Longrightarrow> (p * 4 + c) mod 4 = c \<and> (p * 4 + c) div 4 = (p::nat)"
  by simp

lemma divmod3: "c < 3 \<Longrightarrow> (3 * p + c) mod 3 = c \<and> (3 * p + c) div 3 = (p::nat)"
  by simp

lemma divmodw: "x < w \<Longrightarrow> (y * w + x) mod w = x \<and> (y * w + x) div w = (y::nat)"
  by simp

lemma extract_rows_done:
  "\<not> int i < nb \<Longrightarrow> extract_rows pixels w nb ys (bits, i) = (bits, i)"
  by (cases ys) simp_all

lemma extract_rows_spec:
  assumes G: "\<And>x y c. x < w \<Longrightarrow> y < h \<Longrightarrow> c < 3 \<Longrightarrow>
                js_lsb pixels ((y * w + x) * 4 + c) = g (3 * (y * w + x) + c)"
    and le: "y0 \<le> h"
  shows "extract_rows pixels w nb [y0..<h] (bits, 3 * (y0 * w)) =
           (bits @ map g [3 * (y0 * w)..<(if int (3 * (y0 * w)) < nb
                                           then min (nat nb) (3 * (h * w)) else 3 * (y0 * w))],
            (if int (3 * (y0 * w)) < nb then min (nat nb) (3 * (h * w)) else 3 * (y0 * w)))"
  using le
proof (induction "h - y0" arbitrary: y0 bits)
  case 0
  then have h: "y0 = h" by simp
  have "(if int (3 * (h * w)) < nb then min (nat nb) (3 * (h * w)) else 3 * (h * w))
          = 3 * (h * w)"
    using min_reached[of "3 * (h * w)" nb] by (simp del: of_nat_mult)
  then show ?case unfolding h by simp
next
  case (Suc n)
  then have lt: "y0 < h" and n: "n = h - Suc y0" and le': "Suc y0 \<le> h" by simp_all
  have up: "[y0..<h] = y0 # [Suc y0..<h]" using lt by (simp add: upt_rec)
  let ?i = "3 * (y0 * w)" and ?j = "3 * (Suc y0 * w)" and ?e = "min (nat nb) (3 * (h * w))"
  have j: "?j = ?i + 3 * w" by simp
  have jh: "?j \<le> 3 * (h * w)" using le' by (intro mult_le_mono2 mult_le_mono1)
  show ?case
  proof (cases "int ?i < nb")
    case False
    then show ?thesis unfolding up by simp
  next
    case True
    have "js_lsb pixels ((y0 * w + x) * 4 + c) = g (?i + 3 * x + c)" if "x < w" "c < 3" for x c
      using G[OF that(1) lt that(2)] by (simp add: algebra_simps)
    from extract_row_spec[of w pixels y0 g ?i 0 nb bits, OF this] True
    have row: "extract_row pixels w nb y0 [0..<w] (bits, ?i)
               = (bits @ map g [?i..<min (nat nb) ?j], min (nat nb) ?j)"
      unfolding j by simp
    show ?thesis
    proof (cases "nat nb \<le> ?j")
      case small: True
      then have m: "min (nat nb) ?j = nat nb" "?e = nat nb" using jh by simp_all
      have "\<not> int (nat nb) < nb" by simp
      from extract_rows_done[OF this]
      have "extract_rows pixels w nb [Suc y0..<h] (bits @ map g [?i..<nat nb], nat nb)
            = (bits @ map g [?i..<nat nb], nat nb)" .
      then show ?thesis unfolding up using True row m by simp
    next
      case large: False
      then have m: "min (nat nb) ?j = ?j" and t: "int ?j < nb" by linarith+
      have ih: "extract_rows pixels w nb [Suc y0..<h] (bits @ map g [?i..<?j], ?j)
                = ((bits @ map g [?i..<?j]) @ map g [?j..<?e], ?e)"
        using Suc.hyps(1)[OF n le', of "bits @ map g [?i..<?j]"] t by simp
      have "?i \<le> ?j" "?j \<le> ?e" using large jh by simp_all
      then have "[?i..<?e] = [?i..<?j] @ [?j..<?e]" by (rule upt_split)
      then have "map g [?i..<?e] = map g [?i..<?j] @ map g [?j..<?e]" by simp
      then show ?thesis unfolding up using True row m ih by simp
    qed
  qed
qed

lemma in_grid:
  assumes "x < w" "y < h"
  shows "y * w + x < w * (h::nat)"
proof -
  have "y * w + x < Suc y * w" using assms by simp
  also have "\<dots> \<le> h * w" using assms by (intro mult_le_mono1) simp
  finally show ?thesis by (simp add: mult.commute)
qed

lemma getImageData_lsb:
  assumes "x < width img" "y < height img" "c < 3"
  shows "js_lsb (getImageData img) ((y * width img + x) * 4 + c)
           = unat (channel c (pixel_at img (x, y)) AND 1)"
proof -
  let ?w = "width img" and ?p = "y * width img + x"
  have p: "?p < ?w * height img" using assms by (intro in_grid)
  then have i: "?p * 4 + c < ?w * height img * 4" using assms(3) by simp
  have m: "(?p * 4 + c) mod 4 = c" "(?p * 4 + c) div 4 = ?p"
    using assms(3) divmod4[of c ?p] by simp_all
  have q: "?p mod ?w = x" "?p div ?w = y" using assms(1) divmodw[of x ?w y] by simp_all
  have nth: "getImageData img ! k =
      (if k mod 4 = 3 then 255
       else channel (k mod 4) (pixel_at img ((k div 4) mod ?w, (k div 4) div ?w)))"
    if "k < ?w * height img * 4" for k
    using that by (simp add: getImageData_def del: channel.simps)
  have "getImageData img ! (?p * 4 + c)
          = (if c = 3 then 255 else channel c (pixel_at img (x, y)))"
    unfolding nth[OF i] m q ..
  then have "getImageData img ! (?p * 4 + c) = channel c (pixel_at img (x, y))"
    using assms(3) by simp
  moreover have "?p * 4 + c < length (getImageData img)"
    using i by (simp add: getImageData_def)
  ultimately show ?thesis by (simp add: js_lsb_def)
qed

lemma traversal_lsb_at:
  assumes "x < width img" "c < 3"
  shows "traversal_lsb img (3 * (y * width img + x) + c)
           = unat (channel c (pixel_at img (x, y)) AND 1)"
proof -
  let ?p = "y * width img + x"
  have m: "(3 * ?p + c) mod 3 = c" "(3 * ?p + c) div 3 = ?p"
    using assms(2) divmod3[of c ?p] by simp_all
  have q: "?p mod width img = x" "?p div width img = y"
    using assms(1) divmodw[of x "width img" y] by simp_all
  show ?thesis unfolding traversal_lsb_def m q ..
qed

lemma extract_bits_spec:
  "extract_bits img nb
     = map (traversal_lsb img) [0..<min (nat nb) (3 * (height img * width img))]"
proof -
  have G: "js_lsb (getImageData img) ((y * width img + x) * 4 + c)
             = traversal_lsb img (3 * (y * width img + x) + c)"
    if "x < width img" "y < height img" "c < 3" for x y c
    using that by (simp only: getImageData_lsb traversal_lsb_at)
  from extract_rows_spec[of "width img" "height img" "getImageData img" "traversal_lsb img"
      0 nb "[]", OF G]
  show ?thesis by (auto simp: extract_bits_def)
qed

section \<open>Embedding followed by extraction\<close>

lemma FE_not1: "(0xFE :: byte) = NOT 1" by simp

lemma set_lsb_cases: "set_lsb c 0 = c AND NOT 1" "set_lsb c 1 = (c AND NOT 1) OR 1"
  by (simp_all only: set_lsb_def FE_not1 semiring_1_class.of_nat_0 of_nat_1 or.right_neutral)

lemma set_lsb_read0: "unat (set_lsb c 0 AND 1) = 0"
proof -
  have "(c AND NOT 1) AND 1 = (0 :: byte)"
    by (rule bit_word_eqI) (auto simp: bit_simps)
  then show ?thesis by (simp only: set_lsb_cases unat_0)
qed

lemma set_lsb_read1: "unat (set_lsb c 1 AND 1) = 1"
proof -
  have "((c AND NOT 1) OR 1) AND 1 = (1 :: byte)"
    by (rule bit_word_eqI) (auto simp: bit_simps)
  then show ?thesis by (simp only: set_lsb_cases unat_1)
qed

lemma set_lsb_high0: "drop_bit 1 (set_lsb c 0) = drop_bit 1 c"
proof -
  have "drop_bit 1 (c AND NOT 1) = drop_bit 1 c"
    by (rule bit_word_eqI)
       (unfold bit_drop_bit_eq bit_and_iff bit_not_iff bit_1_iff, auto dest: bit_imp_possible_bit)
  then show ?thesis by (simp only: set_lsb_cases)
qed

lemma set_lsb_high1: "drop_bit 1 (set_lsb c 1) = drop_bit 1 c"
proof -
  have "drop_bit 1 ((c AND NOT 1) OR 1) = drop_bit 1 c"
    by (rule bit_word_eqI)
       (unfold bit_drop_bit_eq bit_and_iff bit_or_iff bit_not_iff bit_1_iff,
        auto dest: bit_imp_possible_bit)
  then show ?thesis by (simp only: set_lsb_cases)
qed

lemma set_lsb_read: "v \<in> {0, 1} \<Longrightarrow> unat (set_lsb c v AND 1) = v"
  using set_lsb_read0 set_lsb_read1 by auto

lemma set_lsb_high: "v \<in> {0, 1} \<Longrightarrow> drop_bit 1 (set_lsb c v) = drop_bit 1 c"
  using set_lsb_high0 set_lsb_high1 by auto

lemma channel_stego:
  "c < 3 \<Longrightarrow> channel c (stego_pixel bits k p) = put_bit bits (k + c) (channel c p)"
proof -
  assume "c < 3"
  then consider "c = 0" | "c = 1" | "c = 2" by linarith
  then show ?thesis
    by cases (cases p; simp add: stego_pixel_def)+
qed


lemma traversal_lsb_embed:
  assumes k: "k < length bits" and cap: "length bits \<le> width img * height img * 3"
    and v: "bits ! k \<in> {0, 1}"
  shows "traversal_lsb (embed_bits img bits) k = bits ! k"
proof -
  let ?w = "width img" and ?h = "height img"
  let ?p = "k div 3" and ?c = "k mod 3"
  let ?x = "?p mod ?w" and ?y = "?p div ?w"
  from k cap have p: "?p < ?w * ?h" by linarith
  then have w0: "0 < ?w" by (cases "?w = 0") simp_all
  then have x: "?x < ?w" by simp
  have y: "?y < ?h" using p w0 by (simp add: less_mult_imp_div_less mult.commute)
  have c: "?c < 3" by simp
  have pk: "3 * (?y * ?w + ?x) + ?c = k" by simp
  have "traversal_lsb (embed_bits img bits) k
          = unat (channel ?c (pixel_at (embed_bits img bits) (?x, ?y)) AND 1)"
    by (simp add: traversal_lsb_def)
  also have "pixel_at (embed_bits img bits) (?x, ?y)
          = stego_pixel bits (3 * (?y * ?w + ?x)) (pixel_at img (?x, ?y))"
    using x y by (simp only: embed_bits_pixel if_True simp_thms)
  also have "channel ?c (stego_pixel bits (3 * (?y * ?w + ?x)) (pixel_at img (?x, ?y)))
          = put_bit bits k (channel ?c (pixel_at img (?x, ?y)))"
    unfolding channel_stego[OF c] pk ..
  also have "\<dots> = set_lsb (channel ?c (pixel_at img (?x, ?y))) (bits ! k)"
    using k by (simp add: put_bit_def)
  finally show ?thesis using v by (simp only: set_lsb_read)
qed

lemma embed_extract_bits:
  assumes "set bits \<subseteq> {0, 1}" "length bits \<le> width img * height img * 3"
  shows "extract_bits (embed_bits img bits) (int (length bits)) = bits"
proof (rule nth_equalityI)
  have m: "min (length bits) (3 * (height img * width img)) = length bits"
    using assms(2) by (simp add: mult.commute)
  show "length (extract_bits (embed_bits img bits) (int (length bits))) = length bits"
    by (simp add: extract_bits_spec m)
  fix k assume "k < length (extract_bits (embed_bits img bits) (int (length bits)))"
  then have k: "k < length bits" by (simp add: extract_bits_spec m)
  with assms(1) have "bits ! k \<in> {0, 1}" by (meson nth_mem subsetD)
  from traversal_lsb_embed[OF k assms(2) this] k
  show "extract_bits (embed_bits img bits) (int (length bits)) ! k = bits ! k"
    by (simp add: extract_bits_spec m)
qed

lemma embed_extract_bytes:
  assumes "8 * length data \<le> width img * height img * 3"
  shows "extractDataFromPng (Some (embed_bits img (bytes_to_lsb_bits data))) (int (length data))
           = Inr data"
proof -
  let ?bits = "bytes_to_lsb_bits data"
  have l: "length ?bits = 8 * length data" by (rule length_bytes_to_lsb_bits)
  have "extract_bits (embed_bits img ?bits) (int (length ?bits)) = ?bits"
    using assms by (intro embed_extract_bits bytes_to_lsb_bits_01) (simp add: l)
  then have "extract_bits (embed_bits img ?bits) (int (length data) * 8) = ?bits"
    by (simp add: l mult.commute)
  moreover have "\<not> int (length data) * 8 > int (width img * height img * 3)"
    using assms by linarith
  ultimately show ?thesis
    by (simp add: extractDataFromPng_def lsbBitsToBytes_roundtrip del: of_nat_mult)
qed

lemma embed_data_in_png_ok:
  assumes "fs input_png = Some img" "8 * length data \<le> width img * height img * 3"
  shows "embed_data_in_png fs input_png output_png data
           = (Inr (), fs(output_png \<mapsto> embed_bits img (bytes_to_lsb_bits data)))"
  using assms by (simp add: embed_data_in_png_def length_bytes_to_lsb_bits)


lemma embed_frame:
  assumes "set bits \<subseteq> {0, 1}" "c < 3"
  shows "drop_bit 1 (channel c (pixel_at (embed_bits img bits) (x, y)))
           = drop_bit 1 (channel c (pixel_at img (x, y)))"
    and "\<not> (x < width img \<and> y < height img \<and> 3 * (y * width img + x) + c < length bits)
          \<Longrightarrow> channel c (pixel_at (embed_bits img bits) (x, y)) = channel c (pixel_at img (x, y))"
    and "x < width img \<Longrightarrow> y < height img \<Longrightarrow> 3 * (y * width img + x) + c < length bits
          \<Longrightarrow> channel c (pixel_at (embed_bits img bits) (x, y))
                = (channel c (pixel_at img (x, y)) AND 0xFE)
                    OR of_nat (bits ! (3 * (y * width img + x) + c))"
proof -
  let ?k = "3 * (y * width img + x) + c"
  let ?old = "channel c (pixel_at img (x, y))"
  have new: "channel c (pixel_at (embed_bits img bits) (x, y))
               = (if x < width img \<and> y < height img then put_bit bits ?k ?old else ?old)"
    by (simp add: embed_bits_pixel channel_stego[OF assms(2)] del: channel.simps)
  have v: "bits ! ?k \<in> {0, 1}" if "?k < length bits"
    using that assms(1) by (meson nth_mem subsetD)
  show "drop_bit 1 (channel c (pixel_at (embed_bits img bits) (x, y))) = drop_bit 1 ?old"
  proof (cases "x < width img \<and> y < height img \<and> ?k < length bits")
    case True
    then have "channel c (pixel_at (embed_bits img bits) (x, y)) = set_lsb ?old (bits ! ?k)"
      unfolding new by (simp only: put_bit_def if_True simp_thms)
    then show ?thesis using set_lsb_high[OF v] True by (simp only:)
  next
    case False
    then have "channel c (pixel_at (embed_bits img bits) (x, y)) = ?old"
      unfolding new by (auto simp: put_bit_def)
    then show ?thesis by (simp only:)
  qed
  show "channel c (pixel_at (embed_bits img bits) (x, y)) = ?old"
    if "\<not> (x < width img \<and> y < height img \<and> ?k < length bits)"
    unfolding new using that by (auto simp: put_bit_def)
  show "channel c (pixel_at (embed_bits img bits) (x, y))
          = (?old AND 0xFE) OR of_nat (bits ! ?k)"
    if "x < width img" "y < height img" "?k < length bits"
    unfolding new using that by (simp add: put_bit_def set_lsb_def)
qed

text \<open>
  Claim C2. Both sides address the channels in the same fixed order, rows top to bottom,
  columns left to right, red, green, blue within a pixel: embedding a 0/1 sequence \<open>s\<close>
  within the capacity \<open>w * h * 3\<close> puts bit \<open>k\<close> into channel \<open>k\<close> of that order, and
  extracting \<open>len(s)\<close> bits reads these channels back, returning exactly \<open>s\<close>. For a
  byte payload, \<open>extractDataFromPng\<close> on the image written by \<open>embed_data_in_png\<close>
  returns the payload.
\<close>

theorem embed_extract_roundtrip:
  assumes "set s \<subseteq> {0, 1}" "length s \<le> width img * height img * 3"
  shows "(\<forall>k<length s. traversal_lsb (embed_bits img s) k = s ! k)
     \<and> extract_bits (embed_bits img s) (int (length s))
         = map (traversal_lsb (embed_bits img s)) [0..<length s]
     \<and> extract_bits (embed_bits img s) (int (length s)) = s
     \<and> (\<forall>fs input_png output_png data.
           fs input_png = Some img \<longrightarrow> s = bytes_to_lsb_bits data \<longrightarrow>
           extractDataFromPng
             (snd (embed_data_in_png fs input_png output_png data) output_png)
             (int (length data)) = Inr data)"
proof (intro conjI allI impI)
  fix k assume k: "k < length s"
  with assms(1) have "s ! k \<in> {0, 1}" by (meson nth_mem subsetD)
  with k assms(2) show "traversal_lsb (embed_bits img s) k = s ! k"
    by (intro traversal_lsb_embed)
next
  have "min (length s) (3 * (height img * width img)) = length s"
    using assms(2) by (simp add: mult.commute)
  then show "extract_bits (embed_bits img s) (int (length s))
         = map (traversal_lsb (embed_bits img s)) [0..<length s]"
    by (simp add: extract_bits_spec)
next
  show "extract_bits (embed_bits img s) (int (length s)) = s"
    using assms by (rule embed_extract_bits)
next
  fix fs :: files and input_png output_png data
  assume f: "fs input_png = Some img" and s: "s = bytes_to_lsb_bits data"
  from assms(2) have cap: "8 * length data \<le> width img * height img * 3"
    by (simp add: s length_bytes_to_lsb_bits)
  show "extractDataFromPng
             (snd (embed_data_in_png fs input_png output_png data) output_png)
             (int (length data)) = Inr data"
    unfolding embed_data_in_png_ok[where fs=fs and input_png=input_png, OF f cap]
    using embed_extract_bytes[OF cap] by simp
qed

lemma bits_B2: "bytes_to_lsb_bits [0xB2] = [1, 0, 1, 1, 0, 0, 1, 0]"
  by (simp add: bytes_to_lsb_bits_def append_byte_bits_def lsb_nat)

theorem embed_extract_roundtrip_witness:
  "set [1, 0, 1, 1, 0, 0, 1, 0] \<subseteq> {0, 1 :: nat}
   \<and> length [1, 0, 1, 1, 0, 0, 1, 0 :: nat] \<le> width carrier2 * height carrier2 * 3
   \<and> extract_bits (embed_bits carrier2 [1, 0, 1, 1, 0, 0, 1, 0]) 8 = [1, 0, 1, 1, 0, 0, 1, 0]
   \<and> traversal_lsb (embed_bits carrier2 [1, 0, 1, 1, 0, 0, 1, 0]) 3 = 1
   \<and> extractDataFromPng
        (snd (embed_data_in_png [''base.png'' \<mapsto> carrier2] ''base.png'' ''out.png'' [0xB2])
           ''out.png'') 1 = Inr [0xB2]"
proof -
  let ?s = "[1, 0, 1, 1, 0, 0, 1, 0 :: nat]"
  have a: "set ?s \<subseteq> {0, 1}" by simp
  have b: "length ?s \<le> width carrier2 * height carrier2 * 3" by (simp add: carrier2_def)
  note t = embed_extract_roundtrip[OF a b]
  have r: "extract_bits (embed_bits carrier2 ?s) 8 = ?s"
    using t[THEN conjunct2, THEN conjunct2, THEN conjunct1] by simp
  have k: "traversal_lsb (embed_bits carrier2 ?s) 3 = 1"
    using t[THEN conjunct1, rule_format, of 3] by simp
  have f: "[''base.png'' \<mapsto> carrier2] ''base.png'' = Some carrier2" by simp
  have e: "extractDataFromPng
        (snd (embed_data_in_png [''base.png'' \<mapsto> carrier2] ''base.png'' ''out.png'' [0xB2])
           ''out.png'') (int (length [0xB2 :: byte])) = Inr [0xB2]"
    using t[THEN conjunct2, THEN conjunct2, THEN conjunct2, rule_format,
        where fs="[''base.png'' \<mapsto> carrier2]" and input_png="''base.png''"
          and data="[0xB2]", OF f bits_B2[symmetric]] .
  show ?thesis using a b r k e by simp
qed

text \<open>
  Claim C4. When the carrier exists and the payload is within capacity,
  \<open>embed_data_in_png\<close> saves an image of the same size in which every channel keeps its
  seven higher bits, and every channel whose number in traversal order is not below the
  number of payload bits, like every pixel outside the grid, is unchanged.
\<close>

theorem embed_frame_invariant:
  assumes "fs input_png = Some img" "8 * length data \<le> width img * height img * 3"
  shows "\<exists>img'. embed_data_in_png fs input_png output_png data
                  = (Inr (), fs(output_png \<mapsto> img'))
      \<and> width img' = width img \<and> height img' = height img
      \<and> (\<forall>x y. \<forall>c<3.
            drop_bit 1 (channel c (pixel_at img' (x, y)))
              = drop_bit 1 (channel c (pixel_at img (x, y)))
          \<and> (\<not> (x < width img \<and> y < height img
                   \<and> 3 * (y * width img + x) + c < 8 * length data)
               \<longrightarrow> channel c (pixel_at img' (x, y)) = channel c (pixel_at img (x, y))))"
proof -
  let ?bits = "bytes_to_lsb_bits data"
  have l: "length ?bits = 8 * length data" by (rule length_bytes_to_lsb_bits)
  note f = embed_frame[where bits="bytes_to_lsb_bits data" and img=img,
      OF bytes_to_lsb_bits_01]
  show ?thesis
  proof (intro exI[of _ "embed_bits img ?bits"] conjI allI impI)
    show "embed_data_in_png fs input_png output_png data
            = (Inr (), fs(output_png \<mapsto> embed_bits img ?bits))"
      using assms by (rule embed_data_in_png_ok[where fs=fs and input_png=input_png])
  next
    fix x y c assume c: "c < (3::nat)"
    show "drop_bit 1 (channel c (pixel_at (embed_bits img ?bits) (x, y)))
              = drop_bit 1 (channel c (pixel_at img (x, y)))"
      using c by (rule f(1))
  next
    fix x y c assume c: "c < (3::nat)"
      and n: "\<not> (x < width img \<and> y < height img
                   \<and> 3 * (y * width img + x) + c < 8 * length data)"
    from n have "\<not> (x < width img \<and> y < height img
                   \<and> 3 * (y * width img + x) + c < length ?bits)"
      unfolding l .
    with c show "channel c (pixel_at (embed_bits img ?bits) (x, y))
                   = channel c (pixel_at img (x, y))"
      by (rule f(2))
  qed simp_all
qed

theorem embed_frame_invariant_witness:
  "[''base.png'' \<mapsto> carrier2] ''base.png'' = Some carrier2
   \<and> 8 * length [0xB2 :: byte] \<le> width carrier2 * height carrier2 * 3
   \<and> (\<exists>img'. embed_data_in_png [''base.png'' \<mapsto> carrier2] ''base.png'' ''out.png'' [0xB2]
                  = (Inr (), [''base.png'' \<mapsto> carrier2, ''out.png'' \<mapsto> img'])
         \<and> drop_bit 1 (channel 0 (pixel_at img' (0, 0))) = (0x08 :: byte)
         \<and> pixel_at img' (1, 1) = (0x10, 0x21, 0x30))"
proof -
  let ?fs = "[''base.png'' \<mapsto> carrier2]"
  have a: "?fs ''base.png'' = Some carrier2" by simp
  have b: "8 * length [0xB2 :: byte] \<le> width carrier2 * height carrier2 * 3"
    by (simp add: carrier2_def)
  from embed_frame_invariant[where fs="?fs" and input_png="''base.png''"
      and output_png="''out.png''", OF a b] obtain img' where
    e: "embed_data_in_png ?fs ''base.png'' ''out.png'' [0xB2] = (Inr (), ?fs(''out.png'' \<mapsto> img'))"
    and p: "\<And>x y c. c < 3 \<Longrightarrow>
            drop_bit 1 (channel c (pixel_at img' (x, y)))
              = drop_bit 1 (channel c (pixel_at carrier2 (x, y)))
          \<and> (\<not> (x < width carrier2 \<and> y < height carrier2
                   \<and> 3 * (y * width carrier2 + x) + c < 8 * length [0xB2 :: byte])
               \<longrightarrow> channel c (pixel_at img' (x, y)) = channel c (pixel_at carrier2 (x, y)))"
    by blast
  have d: "drop_bit 1 (channel 0 (pixel_at img' (0, 0))) = (0x08 :: byte)"
    using p[of 0 0 0] by (simp add: carrier2_def)
  have "channel c (pixel_at img' (1, 1)) = channel c (pixel_at carrier2 (1, 1))" if "c < 3" for c
    using p[OF that, of 1 1] by (simp add: carrier2_def)
  from this[of 0] this[of 1] this[of 2] have "pixel_at img' (1, 1) = (0x10, 0x21, 0x30)"
    by (cases "pixel_at img' (1, 1)") (simp add: carrier2_def)
  with a b e d show ?thesis by blast
qed

text \<open>
  Claim C5. With the carrier present, \<open>embed_data_in_png\<close> raises its capacity error
  exactly when the payload has more than \<open>width * height * 3\<close> bits, and then the file
  store is as it was: nothing was written. The extractor throws exactly when
  \<open>dataLen * 8\<close> exceeds the same \<open>width * height * 3\<close>, whatever the pixels hold.
\<close>

theorem capacity_gate:
  assumes "fs input_png = Some img"
  shows "(fst (embed_data_in_png fs input_png output_png data) = Inl DataTooLarge
            \<longleftrightarrow> length (bytes_to_lsb_bits data) > width img * height img * 3)
     \<and> (length (bytes_to_lsb_bits data) > width img * height img * 3
            \<longrightarrow> embed_data_in_png fs input_png output_png data = (Inl DataTooLarge, fs))
     \<and> (extractDataFromPng (Some img) dataLen = Inl DataTooLong
            \<longleftrightarrow> dataLen * 8 > int (width img * height img * 3))
     \<and> (dataLen * 8 > int (width img * height img * 3) \<longrightarrow>
           (\<forall>img2. width img2 = width img \<and> height img2 = height img \<longrightarrow>
              extractDataFromPng (Some img2) dataLen = Inl DataTooLong))"
  using assms
  by (simp add: embed_data_in_png_def extractDataFromPng_def Let_def del: of_nat_mult)

theorem capacity_gate_witness:
  "[''base.png'' \<mapsto> carrier2] ''base.png'' = Some carrier2
   \<and> length (bytes_to_lsb_bits [0xB2, 0x01]) > width carrier2 * height carrier2 * 3
   \<and> embed_data_in_png [''base.png'' \<mapsto> carrier2] ''base.png'' ''out.png'' [0xB2, 0x01]
        = (Inl DataTooLarge, [''base.png'' \<mapsto> carrier2])
   \<and> (2::int) * 8 > int (width carrier2 * height carrier2 * 3)
   \<and> extractDataFromPng (Some carrier2) 2 = Inl DataTooLong
   \<and> extractDataFromPng (Some (carrier2\<lparr>pixel_at := (\<lambda>_. (0, 0, 0))\<rparr>)) 2 = Inl DataTooLong"
proof -
  let ?fs = "[''base.png'' \<mapsto> carrier2]"
  have a: "?fs ''base.png'' = Some carrier2" by simp
  have b: "length (bytes_to_lsb_bits [0xB2, 0x01]) > width carrier2 * height carrier2 * 3"
    by (simp add: length_bytes_to_lsb_bits carrier2_def)
  have c: "(2::int) * 8 > int (width carrier2 * height carrier2 * 3)"
    by (simp add: carrier2_def)
  note t = capacity_gate[where fs="?fs" and input_png="''base.png''" and img=carrier2
      and output_png="''out.png''" and data="[0xB2, 0x01]" and dataLen=2, OF a]
  have e: "embed_data_in_png ?fs ''base.png'' ''out.png'' [0xB2, 0x01] = (Inl DataTooLarge, ?fs)"
    using t[THEN conjunct2, THEN conjunct1] b by (rule mp)
  have x: "extractDataFromPng (Some carrier2) 2 = Inl DataTooLong"
    using t[THEN conjunct2, THEN conjunct2, THEN conjunct1] c by (rule iffD2)
  have "\<forall>img2. width img2 = width carrier2 \<and> height img2 = height carrier2 \<longrightarrow>
              extractDataFromPng (Some img2) 2 = Inl DataTooLong"
    using t[THEN conjunct2, THEN conjunct2, THEN conjunct2] c by (rule mp)
  then have y: "extractDataFromPng (Some (carrier2\<lparr>pixel_at := (\<lambda>_. (0, 0, 0))\<rparr>)) 2
                  = Inl DataTooLong"
    by simp
  show ?thesis using a b e c x y by (intro conjI)
qed

text \<open>
  Claim C6. Extraction reads the first \<open>dataLen * 8\<close> channel bits in traversal order
  and no more: two carriers of equal size that agree on those bits give the same result,
  whatever their later channels hold.
\<close>

theorem trailing_lsbs_ignored:
  assumes "width img1 = width img2" "height img1 = height img2"
    and "\<forall>k<nat (dataLen * 8). traversal_lsb img1 k = traversal_lsb img2 k"
  shows "extractDataFromPng (Some img1) dataLen = extractDataFromPng (Some img2) dataLen
     \<and> (dataLen * 8 \<le> int (width img1 * height img1 * 3) \<longrightarrow>
          extract_bits img1 (dataLen * 8)
            = map (traversal_lsb img1) [0..<nat (dataLen * 8)])"
proof -
  let ?n = "min (nat (dataLen * 8)) (3 * (height img1 * width img1))"
  have "map (traversal_lsb img1) [0..<?n] = map (traversal_lsb img2) [0..<?n]"
    using assms(3) by (intro map_cong refl) simp
  then have "extract_bits img1 (dataLen * 8) = extract_bits img2 (dataLen * 8)"
    using assms(1,2) by (simp only: extract_bits_spec)
  then have "extractDataFromPng (Some img1) dataLen = extractDataFromPng (Some img2) dataLen"
    using assms(1,2) by (simp add: extractDataFromPng_def Let_def del: of_nat_mult)
  moreover have "extract_bits img1 (dataLen * 8)
            = map (traversal_lsb img1) [0..<nat (dataLen * 8)]"
    if "dataLen * 8 \<le> int (width img1 * height img1 * 3)"
  proof -
    from that have "?n = nat (dataLen * 8)"
      by (simp add: mult.commute mult.left_commute min_def nat_le_iff del: of_nat_mult)
    then show ?thesis by (simp only: extract_bits_spec)
  qed
  ultimately show ?thesis by blast
qed

theorem trailing_lsbs_ignored_witness:
  "width carrier2 = width (carrier2\<lparr>pixel_at := (pixel_at carrier2)((1, 1) := (0xFF, 0xFF, 0xFF))\<rparr>)
   \<and> height carrier2
       = height (carrier2\<lparr>pixel_at := (pixel_at carrier2)((1, 1) := (0xFF, 0xFF, 0xFF))\<rparr>)
   \<and> extractDataFromPng (Some carrier2) 1
       = extractDataFromPng
           (Some (carrier2\<lparr>pixel_at := (pixel_at carrier2)((1, 1) := (0xFF, 0xFF, 0xFF))\<rparr>)) 1
   \<and> traversal_lsb carrier2 9
       \<noteq> traversal_lsb (carrier2\<lparr>pixel_at := (pixel_at carrier2)((1, 1) := (0xFF, 0xFF, 0xFF))\<rparr>) 9"
proof -
  let ?img2 = "carrier2\<lparr>pixel_at := (pixel_at carrier2)((1, 1) := (0xFF, 0xFF, 0xFF))\<rparr>"
  have w: "width carrier2 = width ?img2" and h: "height carrier2 = height ?img2" by simp_all
  have agree: "\<forall>k<nat (1 * 8). traversal_lsb carrier2 k = traversal_lsb ?img2 k"
  proof (intro allI impI)
    fix k :: nat assume "k < nat (1 * 8)"
    then have "k div 3 < 3" by simp
    then have "\<not> ((k div 3) mod 2 = 1 \<and> (k div 3) div 2 = 1)" by presburger
    then show "traversal_lsb carrier2 k = traversal_lsb ?img2 k"
      by (auto simp: traversal_lsb_def carrier2_def)
  qed
  have d: "traversal_lsb carrier2 9 \<noteq> traversal_lsb ?img2 9"
    by (simp add: traversal_lsb_def carrier2_def)
  from trailing_lsbs_ignored[OF w h agree]
  have "extractDataFromPng (Some carrier2) 1 = extractDataFromPng (Some ?img2) 1" by blast
  with w h d show ?thesis by (intro conjI)
qed

section \<open>Properties of the envelope\<close>



lemma unat_byte_of_nat_lt: "m < 256 \<Longrightarrow> unat (of_nat m :: byte) = m"
  by (simp add: unat_of_nat)






text \<open>
  Claim C3, amended. The reader does not compare the embedded length field with the
  declared total length. A payload shorter than 16 bytes fails with a \<open>RangeError\<close>; any
  other payload is parsed, and the ciphertext handed to decryption is the bytes from
  offset 16 up to 16 plus the field, clamped to the end of the payload: the whole rest
  when the field is at least \<open>len(payload) - 16\<close>, a truncated one when it is smaller.
\<close>

theorem unframe_unchecked:
  "(length payload < 16 \<longrightarrow> unframe payload = Inl RangeError)
   \<and> (16 \<le> length payload \<longrightarrow>
        unframe payload
          = Inr (take 12 payload, getUint32_be payload 12,
                 take (getUint32_be payload 12) (drop 16 payload)))
   \<and> (16 \<le> length payload \<longrightarrow> length payload - 16 \<le> getUint32_be payload 12 \<longrightarrow>
        unframe payload = Inr (take 12 payload, getUint32_be payload 12, drop 16 payload))
   \<and> (16 \<le> length payload \<longrightarrow> extractDataFromPng imgB64 totalPayloadLen = Inr payload \<longrightarrow>
        extractAndDecryptPng aesGcmDecrypt key imgB64 totalPayloadLen
          = aesGcmDecrypt (take 12 payload)
              (take (getUint32_be payload 12) (drop 16 payload)) key)"
  by (simp add: unframe_def extractAndDecryptPng_def Let_def)

theorem unframe_unchecked_witness:
  "(16::nat) \<le> length (replicate 12 0 @ [0, 0, 0, 2] @ [0xAA, 0xBB :: byte])
   \<and> length (replicate 12 0 @ [0, 0, 0, 2] @ [0xAA, 0xBB :: byte]) - 16
        \<le> getUint32_be (replicate 12 0 @ [0, 0, 0, 2] @ [0xAA, 0xBB]) 12
   \<and> unframe (replicate 12 0 @ [0, 0, 0, 2] @ [0xAA, 0xBB])
        = Inr (replicate 12 0, 2, [0xAA, 0xBB])
   \<and> length (replicate 3 (0 :: byte)) < 16
   \<and> unframe (replicate 3 0) = Inl RangeError
   \<and> extractDataFromPng
        (Some (embed_bits carrier7
                 (bytes_to_lsb_bits (replicate 12 0 @ [0, 0, 0, 2] @ [0xAA, 0xBB])))) 18
       = Inr (replicate 12 0 @ [0, 0, 0, 2] @ [0xAA, 0xBB])
   \<and> extractAndDecryptPng (\<lambda>nonce ct key. Inl DecryptFailed) []
        (Some (embed_bits carrier7
                 (bytes_to_lsb_bits (replicate 12 0 @ [0, 0, 0, 2] @ [0xAA, 0xBB])))) 18
       = Inl DecryptFailed"
proof -
  let ?p = "replicate 12 0 @ [0, 0, 0, 2] @ [0xAA, 0xBB :: byte]"
  let ?img = "Some (embed_bits carrier7 (bytes_to_lsb_bits ?p))"
  have a: "16 \<le> length ?p" by simp
  have g: "getUint32_be ?p 12 = 2"
    by (simp add: getUint32_be_def nth_append)
  have b: "length ?p - 16 \<le> getUint32_be ?p 12" unfolding g by simp
  have c: "length (replicate 3 (0 :: byte)) < 16" by simp
  have x: "extractDataFromPng ?img 18 = Inr ?p"
    using embed_extract_bytes[of ?p carrier7] by (simp add: carrier7_def)
  note t = unframe_unchecked[of ?p ?img 18 "\<lambda>nonce ct key. Inl DecryptFailed" "[]"]
  note s = unframe_unchecked[of "replicate 3 0"]
  have u: "unframe ?p = Inr (replicate 12 0, 2, [0xAA, 0xBB])"
    using t[THEN conjunct2, THEN conjunct2, THEN conjunct1, rule_format, OF a b, unfolded g]
    by simp
  have r: "unframe (replicate 3 0) = Inl RangeError"
    using s[THEN conjunct1, rule_format, OF c] .
  have d: "extractAndDecryptPng (\<lambda>nonce ct key. Inl DecryptFailed) [] ?img 18 = Inl DecryptFailed"
    using t[THEN conjunct2, THEN conjunct2, THEN conjunct2, rule_format, OF a x] .
  show ?thesis using a b u c r x d by (intro conjI)
qed

text \<open>
  Claim C3 as written fails: an 18-byte payload whose length field says 1 while two
  ciphertext bytes follow is parsed without any failure, and its ciphertext silently
  loses the second byte.
\<close>

theorem unframe_unchecked_counterexample:
  "length (replicate 12 0 @ [0, 0, 0, 1] @ [0xAA, 0xBB :: byte]) = 18
   \<and> getUint32_be (replicate 12 0 @ [0, 0, 0, 1] @ [0xAA, 0xBB]) 12 = 1
   \<and> unframe (replicate 12 0 @ [0, 0, 0, 1] @ [0xAA, 0xBB]) = Inr (replicate 12 0, 1, [0xAA])"
  by (simp add: unframe_def getUint32_be_def nth_append)

section \<open>Properties of the mapping registry\<close>

lemma length4E:
  assumes "length xs = 4"
  obtains a b c d where "xs = [a, b, c, d]"
  using assms by (auto simp: length_Suc_conv numeral_eq_Suc)

lemma parts_of_blank: "py_strip line = [] \<Longrightarrow> parts_of line = ['''']"
  by (simp add: parts_of_def)

lemma read_lines_skip:
  assumes "length (parts_of line) \<noteq> 4"
  shows "read_lines lim (line # rest) mp = read_lines lim rest mp"
  using assms by (auto split: list.splits)

lemma read_lines_four:
  assumes "length (parts_of line) = 4"
  shows "read_lines lim (line # rest) mp =
     (case line_entry lim line of
        None \<Rightarrow> Inl IntValueError
      | Some e \<Rightarrow> read_lines lim rest (mp(line_key line \<mapsto> e)))"
proof -
  from assms obtain a b c d where p: "parts_of line = [a, b, c, d]" by (rule length4E)
  then have "py_strip line \<noteq> []" using parts_of_blank[of line] by auto
  with p show ?thesis
    by (simp add: line_entry_def line_key_def Let_def split: option.splits)
qed

declare read_lines.simps(2) [simp del]

lemma read_lines_filter:
  "read_lines lim (filter (\<lambda>l. length (parts_of l) = 4) ls) mp = read_lines lim ls mp"
proof (induction ls arbitrary: mp)
  case Nil
  show ?case by simp
next
  case (Cons l ls)
  show ?case
  proof (cases "length (parts_of l) = 4")
    case True
    have "read_lines lim (l # filter (\<lambda>l. length (parts_of l) = 4) ls) mp = read_lines lim (l # ls) mp"
      unfolding read_lines_four[OF True]
      by (cases "line_entry lim l") (simp_all only: option.case Cons.IH)
    with True show ?thesis by simp
  next
    case False
    then show ?thesis
      using read_lines_skip[OF False] by (simp add: Cons.IH)
  qed
qed

lemma read_lines_bad_int:
  assumes "l \<in> set ls" "length (parts_of l) = 4" "py_int lim (parts_of l ! 3) = None"
  shows "read_lines lim ls mp = Inl IntValueError"
  using assms(1)
proof (induction ls arbitrary: mp)
  case Nil
  then show ?case by simp
next
  case (Cons a ls)
  show ?case
  proof (cases "a = l")
    case True
    with assms(2,3) show ?thesis
      by (simp add: read_lines_four line_entry_def)
  next
    case False
    with Cons.prems have "l \<in> set ls" by simp
    then have ih: "read_lines lim ls mp' = Inl IntValueError" for mp' by (rule Cons.IH)
    show ?thesis
    proof (cases "length (parts_of a) = 4")
      case True
      then show ?thesis by (simp add: read_lines_four ih split: option.splits)
    next
      case False
      then show ?thesis using read_lines_skip[OF False] by (simp add: ih)
    qed
  qed
qed

lemma read_lines_keeps:
  assumes "read_lines lim ls mp = Inr mp'" "mp k = Some e"
    and "\<forall>l\<in>set ls. length (parts_of l) = 4 \<longrightarrow> line_key l \<noteq> k"
  shows "mp' k = Some e"
  using assms
proof (induction ls arbitrary: mp)
  case Nil
  then show ?case by simp
next
  case (Cons a ls)
  show ?case
  proof (cases "length (parts_of a) = 4")
    case True
    with Cons.prems(3) have ne: "line_key a \<noteq> k" by simp
    from Cons.prems(1) True obtain e' where e': "line_entry lim a = Some e'"
      and r: "read_lines lim ls (mp(line_key a \<mapsto> e')) = Inr mp'"
      by (auto simp: read_lines_four split: option.splits)
    show ?thesis
      by (rule Cons.IH[OF r]) (use ne Cons.prems in auto)
  next
    case False
    with Cons.prems(1) have r: "read_lines lim ls mp = Inr mp'"
      using read_lines_skip[OF False] by simp
    show ?thesis by (rule Cons.IH[OF r]) (use Cons.prems in auto)
  qed
qed

lemma read_lines_last_wins:
  assumes "read_lines lim (pre @ l # post) mp = Inr mp'" "length (parts_of l) = 4"
    and "\<forall>l'\<in>set post. length (parts_of l') = 4 \<longrightarrow> line_key l' \<noteq> line_key l"
  shows "line_entry lim l \<noteq> None \<and> mp' (line_key l) = line_entry lim l"
  using assms(1)
proof (induction pre arbitrary: mp)
  case Nil
  with assms(2) obtain e where e: "line_entry lim l = Some e"
      and r: "read_lines lim post (mp(line_key l \<mapsto> e)) = Inr mp'"
    by (auto simp: read_lines_four split: option.splits)
  have "mp' (line_key l) = Some e"
    by (rule read_lines_keeps[OF r]) (use assms(3) in auto)
  with e show ?case by simp
next
  case (Cons a pre)
  show ?case
  proof (cases "length (parts_of a) = 4")
    case True
    with Cons.prems obtain e' where
      r: "read_lines lim (pre @ l # post) (mp(line_key a \<mapsto> e')) = Inr mp'"
      by (auto simp: read_lines_four split: option.splits)
    then show ?thesis by (rule Cons.IH)
  next
    case False
    with Cons.prems have "read_lines lim (pre @ l # post) mp = Inr mp'"
      using read_lines_skip[OF False] by simp
    then show ?thesis by (rule Cons.IH)
  qed
qed

lemma line_entry_id: "line_entry lim l = Some e \<Longrightarrow> entry_id e = line_key l"
  by (auto simp: line_entry_def)

lemma read_lines_keeps_key:
  assumes "read_lines lim ls mp = Inr mp'" "mp k = Some e" "entry_id e = k"
  shows "\<exists>e'. mp' k = Some e' \<and> entry_id e' = k"
  using assms
proof (induction ls arbitrary: mp e)
  case Nil
  then show ?case by simp
next
  case (Cons a ls)
  show ?case
  proof (cases "length (parts_of a) = 4")
    case True
    with Cons.prems(1) obtain e' where e': "line_entry lim a = Some e'"
      and r: "read_lines lim ls (mp(line_key a \<mapsto> e')) = Inr mp'"
      by (auto simp: read_lines_four split: option.splits)
    show ?thesis
    proof (cases "line_key a = k")
      case True
      show ?thesis
        by (rule Cons.IH[OF r, of e']) (use True line_entry_id[OF e'] in auto)
    next
      case False
      show ?thesis
        by (rule Cons.IH[OF r, of e]) (use False Cons.prems in auto)
    qed
  next
    case False
    with Cons.prems(1) have r: "read_lines lim ls mp = Inr mp'"
      using read_lines_skip[OF False] by simp
    show ?thesis by (rule Cons.IH[OF r Cons.prems(2,3)])
  qed
qed

lemma read_lines_dom:
  assumes "read_lines lim ls mp = Inr mp'" "l \<in> set ls" "length (parts_of l) = 4"
  shows "\<exists>e. mp' (line_key l) = Some e \<and> entry_id e = line_key l"
  using assms(1,2)
proof (induction ls arbitrary: mp)
  case Nil
  then show ?case by simp
next
  case (Cons a ls)
  show ?case
  proof (cases "length (parts_of a) = 4")
    case True
    with Cons.prems(1) obtain e' where e': "line_entry lim a = Some e'"
      and r: "read_lines lim ls (mp(line_key a \<mapsto> e')) = Inr mp'"
      by (auto simp: read_lines_four split: option.splits)
    show ?thesis
    proof (cases "l \<in> set ls")
      case True
      with r show ?thesis by (rule Cons.IH)
    next
      case False
      with Cons.prems(2) have "a = l" by simp
      then show ?thesis
        using read_lines_keeps_key[OF r, of "line_key l" e'] line_entry_id[OF e'] by simp
    qed
  next
    case False
    with Cons.prems(1) have r: "read_lines lim ls mp = Inr mp'"
      using read_lines_skip[OF False] by simp
    from False assms(3) Cons.prems(2) have "l \<in> set ls" by auto
    with r show ?thesis by (rule Cons.IH)
  qed
qed


lemma read_lines_total:
  assumes "\<forall>l\<in>set ls. length (parts_of l) = 4 \<longrightarrow> py_int lim (parts_of l ! 3) \<noteq> None"
  shows "\<exists>mp'. read_lines lim ls mp = Inr mp'"
  using assms
proof (induction ls arbitrary: mp)
  case Nil
  show ?case by simp
next
  case (Cons a ls)
  then have ih: "\<exists>mp'. read_lines lim ls m = Inr mp'" for m by simp
  show ?case
  proof (cases "length (parts_of a) = 4")
    case True
    with Cons.prems obtain n where "py_int lim (parts_of a ! 3) = Some n" by auto
    then obtain e where "line_entry lim a = Some e" by (simp add: line_entry_def)
    then show ?thesis using ih by (simp add: read_lines_four[OF True])
  next
    case False
    then show ?thesis using ih by (simp add: read_lines_skip[OF False])
  qed
qed

lemma read_lines_dom_eq:
  assumes "read_lines lim ls mp = Inr mp'"
  shows "dom mp' = dom mp \<union> line_key ` {l \<in> set ls. length (parts_of l) = 4}"
  using assms
proof (induction ls arbitrary: mp)
  case Nil
  then show ?case by auto
next
  case (Cons a ls)
  show ?case
  proof (cases "length (parts_of a) = 4")
    case True
    with Cons.prems obtain e where
      r: "read_lines lim ls (mp(line_key a \<mapsto> e)) = Inr mp'"
      by (auto simp: read_lines_four split: option.splits)
    from Cons.IH[OF r]
    have "dom mp' = insert (line_key a) (dom mp)
                      \<union> line_key ` {l \<in> set ls. length (parts_of l) = 4}"
      by (auto simp: dom_def split: if_splits)
    moreover have "{l \<in> set (a # ls). length (parts_of l) = 4}
                     = insert a {l \<in> set ls. length (parts_of l) = 4}"
      using True by auto
    ultimately show ?thesis by simp
  next
    case False
    with Cons.prems have r: "read_lines lim ls mp = Inr mp'"
      using read_lines_skip[OF False] by simp
    have "{l \<in> set (a # ls). length (parts_of l) = 4}
            = {l \<in> set ls. length (parts_of l) = 4}"
      using False by auto
    with Cons.IH[OF r] show ?thesis by simp
  qed
qed

lemmas eval_defs = read_article_mapping_def parts_of_def py_strip_def py_isspace_def TAB_def
  py_int_def int_isspace_def is_digit_def digit_val_def splitext_def rfind_def line_key_def
  line_entry_def header_line_def read_lines.simps(2) Let_def

text \<open>
  Claim C9, amended. The first line is skipped whatever it holds. A later line is skipped
  without raising when it does not have exactly 4 tab-separated fields once its leading
  and trailing whitespace (tabs included) is stripped, a blank line among them: the
  result is that of the file without such lines. When every later line with exactly 4
  such fields is well-formed, its fourth field accepted by \<open>int()\<close>, the read returns a
  mapping whose keys are exactly the article names of these lines without the extension,
  each of these lines has its entry, and the last line for a name supplies the entry.
\<close>

theorem registry_tolerance:
  "read_article_mapping lim (h # rest)
     = read_article_mapping lim (h' # filter (\<lambda>l. length (parts_of l) = 4) rest)
   \<and> ((\<forall>l\<in>set rest. length (parts_of l) = 4 \<longrightarrow> py_int lim (parts_of l ! 3) \<noteq> None) \<longrightarrow>
        (\<exists>mp. read_article_mapping lim (h # rest) = Inr mp
           \<and> dom mp = line_key ` {l \<in> set rest. length (parts_of l) = 4}
           \<and> (\<forall>l\<in>set rest. length (parts_of l) = 4 \<longrightarrow>
                 (\<exists>e. mp (line_key l) = Some e \<and> entry_id e = line_key l))
           \<and> (\<forall>pre l post. rest = pre @ l # post \<longrightarrow> length (parts_of l) = 4 \<longrightarrow>
                 (\<forall>l'\<in>set post. length (parts_of l') = 4 \<longrightarrow> line_key l' \<noteq> line_key l) \<longrightarrow>
                 line_entry lim l \<noteq> None \<and> mp (line_key l) = line_entry lim l)))"
proof (intro conjI impI)
  show "read_article_mapping lim (h # rest)
     = read_article_mapping lim (h' # filter (\<lambda>l. length (parts_of l) = 4) rest)"
    by (simp add: read_article_mapping_def read_lines_filter)
next
  assume ok: "\<forall>l\<in>set rest. length (parts_of l) = 4 \<longrightarrow> py_int lim (parts_of l ! 3) \<noteq> None"
  from read_lines_total[OF ok, of Map.empty] obtain mp where
    r: "read_lines lim rest Map.empty = Inr mp" by blast
  have 1: "read_article_mapping lim (h # rest) = Inr mp"
    using r by (simp add: read_article_mapping_def)
  have 2: "dom mp = line_key ` {l \<in> set rest. length (parts_of l) = 4}"
    using read_lines_dom_eq[OF r] by simp
  have 3: "\<forall>l\<in>set rest. length (parts_of l) = 4 \<longrightarrow>
                 (\<exists>e. mp (line_key l) = Some e \<and> entry_id e = line_key l)"
    using read_lines_dom[OF r] by blast
  have 4: "\<forall>pre l post. rest = pre @ l # post \<longrightarrow> length (parts_of l) = 4 \<longrightarrow>
                 (\<forall>l'\<in>set post. length (parts_of l') = 4 \<longrightarrow> line_key l' \<noteq> line_key l) \<longrightarrow>
                 line_entry lim l \<noteq> None \<and> mp (line_key l) = line_entry lim l"
  proof (intro allI impI)
    fix pre l post
    assume a: "rest = pre @ l # post" "length (parts_of l) = 4"
      "\<forall>l'\<in>set post. length (parts_of l') = 4 \<longrightarrow> line_key l' \<noteq> line_key l"
    from r a(1) have "read_lines lim (pre @ l # post) Map.empty = Inr mp" by simp
    from read_lines_last_wins[OF this a(2,3)]
    show "line_entry lim l \<noteq> None \<and> mp (line_key l) = line_entry lim l" .
  qed
  from 1 2 3 4 show "\<exists>mp. read_article_mapping lim (h # rest) = Inr mp
           \<and> dom mp = line_key ` {l \<in> set rest. length (parts_of l) = 4}
           \<and> (\<forall>l\<in>set rest. length (parts_of l) = 4 \<longrightarrow>
                 (\<exists>e. mp (line_key l) = Some e \<and> entry_id e = line_key l))
           \<and> (\<forall>pre l post. rest = pre @ l # post \<longrightarrow> length (parts_of l) = 4 \<longrightarrow>
                 (\<forall>l'\<in>set post. length (parts_of l') = 4 \<longrightarrow> line_key l' \<noteq> line_key l) \<longrightarrow>
                 line_entry lim l \<noteq> None \<and> mp (line_key l) = line_entry lim l)"
    by blast
qed

theorem registry_tolerance_witness:
  "\<exists>mp. read_article_mapping 4300
          [header_line, tsv [''note'', ''x''] @ [CHR 0x0A],
           tsv [''a.txt'', ''old.png'', ''b2xk'', ''7''] @ [CHR 0x0A],
           tsv [''a.txt'', ''img.png'', ''a2V5'', ''43''] @ [CHR 0x0A]] = Inr mp
        \<and> mp ''a'' = Some \<lparr>entry_id = ''a'', img_path = ''img.png'',
                            aes_key_b64 = ''a2V5'', payload_len = 43\<rparr>
        \<and> dom mp = {''a''}"
proof -
  let ?bad = "tsv [''note'', ''x''] @ [CHR 0x0A]"
  let ?old = "tsv [''a.txt'', ''old.png'', ''b2xk'', ''7''] @ [CHR 0x0A]"
  let ?good = "tsv [''a.txt'', ''img.png'', ''a2V5'', ''43''] @ [CHR 0x0A]"
  let ?rest = "[?bad, ?old, ?good]"
  have pb: "length (parts_of ?bad) \<noteq> 4" by (simp add: eval_defs)
  have po: "length (parts_of ?old) = 4" by (simp add: eval_defs)
  have pg: "length (parts_of ?good) = 4" by (simp add: eval_defs)
  have io: "py_int 4300 (parts_of ?old ! 3) \<noteq> None" by (simp add: eval_defs)
  have ig: "py_int 4300 (parts_of ?good ! 3) \<noteq> None" by (simp add: eval_defs)
  have ok: "\<forall>l\<in>set ?rest. length (parts_of l) = 4 \<longrightarrow> py_int 4300 (parts_of l ! 3) \<noteq> None"
  proof (intro ballI impI)
    fix l assume "l \<in> set ?rest" and four: "length (parts_of l) = 4"
    then consider "l = ?bad" | "l = ?old" | "l = ?good"
      by (simp only: list.set insert_iff empty_iff) blast
    then show "py_int 4300 (parts_of l ! 3) \<noteq> None"
      using pb io ig four by cases (simp_all only:, simp_all only: simp_thms)
  qed
  have ko: "line_key ?old = ''a''" and kg: "line_key ?good = ''a''" by (simp_all add: eval_defs)
  have eg: "line_entry 4300 ?good = Some \<lparr>entry_id = ''a'', img_path = ''img.png'',
                            aes_key_b64 = ''a2V5'', payload_len = 43\<rparr>"
    by (simp add: eval_defs)
  from registry_tolerance[of 4300 header_line ?rest header_line, THEN conjunct2, THEN mp, OF ok]
  obtain mp where
    r: "read_article_mapping 4300 (header_line # ?rest) = Inr mp"
    and d: "dom mp = line_key ` {l \<in> set ?rest. length (parts_of l) = 4}"
    and e: "\<forall>l\<in>set ?rest. length (parts_of l) = 4 \<longrightarrow>
                 (\<exists>e. mp (line_key l) = Some e \<and> entry_id e = line_key l)"
    and w: "\<forall>pre l post. ?rest = pre @ l # post \<longrightarrow> length (parts_of l) = 4 \<longrightarrow>
                 (\<forall>l'\<in>set post. length (parts_of l') = 4 \<longrightarrow> line_key l' \<noteq> line_key l) \<longrightarrow>
                 line_entry 4300 l \<noteq> None \<and> mp (line_key l) = line_entry 4300 l"
    by blast
  have split: "?rest = [?bad, ?old] @ ?good # []" by simp
  have post: "\<forall>l'\<in>set []. length (parts_of l') = 4 \<longrightarrow> line_key l' \<noteq> line_key ?good" by simp
  from w[THEN spec[where x="[?bad, ?old]"], THEN spec[where x="?good"],
         THEN spec[where x="[]"], THEN mp, OF split, THEN mp, OF pg, THEN mp, OF post]
  have "mp (line_key ?good) = line_entry 4300 ?good"
    by (rule conjunct2)
  then have m: "mp ''a'' = Some \<lparr>entry_id = ''a'', img_path = ''img.png'',
                            aes_key_b64 = ''a2V5'', payload_len = 43\<rparr>"
    unfolding kg eg .
  have "{l \<in> set ?rest. length (parts_of l) = 4} = {?old, ?good}"
    using pb po pg by (simp only: list.set) blast
  then have "dom mp = line_key ` {?old, ?good}" using d by (simp only:)
  then have dm: "dom mp = {''a''}" unfolding image_insert image_empty ko kg by simp
  have "?old \<in> set ?rest" by simp
  from e[THEN bspec, OF this, THEN mp, OF po] have "\<exists>e. mp ''a'' = Some e \<and> entry_id e = ''a''"
    unfolding ko .
  with r m dm show ?thesis by blast
qed

text \<open>
  Claim C9 as written fails. The line \<open>\ta\tb\tc\tx\<close> has five tab-separated fields,
  yet it is not skipped: stripping removes the leading tab, four fields remain, and the
  last one is no integer, so the read raises, where without the line it returns the
  empty mapping. And a well-formed line contributes no entry when another line with
  four fields carries a length that is no integer: the read raises.
\<close>

theorem registry_tolerance_counterexample:
  "length (py_split TAB (tsv ['''', ''a'', ''b'', ''c'', ''x''] @ [CHR 0x0A])) = 5
   \<and> read_article_mapping 4300
        [header_line, tsv ['''', ''a'', ''b'', ''c'', ''x''] @ [CHR 0x0A]] = Inl IntValueError
   \<and> read_article_mapping 4300 [header_line] = Inr Map.empty
   \<and> read_article_mapping 4300
        [header_line, tsv [''a.txt'', ''img.png'', ''a2V5'', ''43''] @ [CHR 0x0A],
         tsv [''b.txt'', ''img.png'', ''a2V5'', ''4x''] @ [CHR 0x0A]] = Inl IntValueError"
  by (simp add: eval_defs)

text \<open>
  Claim C10, amended. When some line after the header has, once its leading and
  trailing whitespace (tabs included) is stripped, exactly 4 tab-separated fields and
  \<open>int()\<close> rejects the fourth, the read raises \<open>ValueError\<close> and returns no mapping.
\<close>

theorem bad_length_field_aborts:
  "l \<in> set rest \<Longrightarrow> length (parts_of l) = 4 \<Longrightarrow> py_int lim (parts_of l ! 3) = None
     \<Longrightarrow> read_article_mapping lim (h # rest) = Inl IntValueError"
  by (simp add: read_article_mapping_def read_lines_bad_int)

theorem bad_length_field_aborts_witness:
  "tsv [''b.txt'', ''img.png'', ''a2V5'', CHR 0x1F # ''43''] @ [CHR 0x0A]
     \<in> set [tsv [''a.txt'', ''img.png'', ''a2V5'', ''43''] @ [CHR 0x0A],
            tsv [''b.txt'', ''img.png'', ''a2V5'', CHR 0x1F # ''43''] @ [CHR 0x0A]]
   \<and> length (parts_of (tsv [''b.txt'', ''img.png'', ''a2V5'', CHR 0x1F # ''43''] @ [CHR 0x0A])) = 4
   \<and> py_int 4300
        (parts_of (tsv [''b.txt'', ''img.png'', ''a2V5'', CHR 0x1F # ''43''] @ [CHR 0x0A]) ! 3)
       = None
   \<and> read_article_mapping 4300
        [header_line, tsv [''a.txt'', ''img.png'', ''a2V5'', ''43''] @ [CHR 0x0A],
         tsv [''b.txt'', ''img.png'', ''a2V5'', CHR 0x1F # ''43''] @ [CHR 0x0A]]
       = Inl IntValueError
   \<and> read_article_mapping 4300
        [header_line, tsv [''b.txt'', ''img.png'', ''a2V5'', ''4x''] @ [CHR 0x0A]]
       = Inl IntValueError"
proof -
  let ?a = "tsv [''a.txt'', ''img.png'', ''a2V5'', ''43''] @ [CHR 0x0A]"
  let ?b = "tsv [''b.txt'', ''img.png'', ''a2V5'', CHR 0x1F # ''43''] @ [CHR 0x0A]"
  let ?c = "tsv [''b.txt'', ''img.png'', ''a2V5'', ''4x''] @ [CHR 0x0A]"
  have m: "?b \<in> set [?a, ?b]" by simp
  have f: "length (parts_of ?b) = 4" by (simp add: eval_defs)
  have i: "py_int 4300 (parts_of ?b ! 3) = None" by (simp add: eval_defs)
  have m': "?c \<in> set [?c]" by simp
  have f': "length (parts_of ?c) = 4" by (simp add: eval_defs)
  have i': "py_int 4300 (parts_of ?c ! 3) = None" by (simp add: eval_defs)
  from bad_length_field_aborts[OF m f i, of header_line]
       bad_length_field_aborts[OF m' f' i', of header_line] m f i
  show ?thesis by (intro conjI)
qed

text \<open>
  Claim C10 as written fails. A data line whose fourth field is empty has exactly four
  tab-separated fields, the fourth no integer, yet stripping removes the trailing tab and
  the line is skipped as a three-field line; and the header the encoder writes, four
  fields with a fourth that is no integer, is skipped as the first line. Both reads
  return a mapping.
\<close>

theorem bad_length_field_counterexample:
  "length (py_split TAB (tsv [''a.txt'', ''img.png'', ''a2V5'', ''''] @ [CHR 0x0A])) = 4
   \<and> py_int 4300 (py_split TAB (tsv [''a.txt'', ''img.png'', ''a2V5'', ''''] @ [CHR 0x0A]) ! 3)
       = None
   \<and> read_article_mapping 4300
        [header_line, tsv [''a.txt'', ''img.png'', ''a2V5'', ''''] @ [CHR 0x0A]]
       = Inr Map.empty
   \<and> length (py_split TAB header_line) = 4
   \<and> py_int 4300 (py_split TAB header_line ! 3) = None
   \<and> read_article_mapping 4300 [header_line] = Inr Map.empty"
  by (simp add: eval_defs)

end
